theory Spec2Isabelle
  imports Complex_Main "HOL-Library.Log_Nat"
begin

section \<open>Data model of the batch image compressor\<close>

text \<open>
  The development embeds the orchestration code of the batch compressor page
  (the \<open>DOMContentLoaded\<close> closure): the list \<open>imageFilesState\<close>, the counter
  \<open>nextId\<close>, the handlers attached to the buttons and the asynchronous function
  \<open>compressToTargetSize\<close>.

  A \<open>File\<close> object and an object URL are opaque to this code, so each is modelled by a
  natural number naming it.
\<close>

datatype ImageStatus = Compressing | Done | Error

datatype SizeUnit = KB | MB

type_synonym fileobj = nat

type_synonym url = nat

text \<open>
  A JavaScript number as the handlers see it: \<open>parseFloat\<close> yields \<open>NaN\<close>, an infinity or
  a finite double. A finite double is modelled by the real number it denotes; the sign of
  zero is not represented.
\<close>

datatype jsnum = NaN | NegInf | Fin real | PosInf

fun js_isNaN :: "jsnum \<Rightarrow> bool" where
  "js_isNaN NaN = True"
| "js_isNaN _ = False"

text \<open>The comparison \<open>a <= b\<close>; any comparison with \<open>NaN\<close> is false.\<close>

fun js_le :: "jsnum \<Rightarrow> jsnum \<Rightarrow> bool" where
  "js_le NaN _ = False"
| "js_le _ NaN = False"
| "js_le NegInf _ = True"
| "js_le _ PosInf = True"
| "js_le (Fin x) (Fin y) = (x \<le> y)"
| "js_le (Fin x) NegInf = False"
| "js_le PosInf _ = False"

fun js_sign :: "jsnum \<Rightarrow> int" where
  "js_sign NaN = 0"
| "js_sign NegInf = - 1"
| "js_sign PosInf = 1"
| "js_sign (Fin x) = (if x < 0 then - 1 else if x = 0 then 0 else 1)"

definition js_signed_inf :: "int \<Rightarrow> jsnum" where
  "js_signed_inf s = (if s < 0 then NegInf else PosInf)"

text \<open>
  Rounding to the nearest integer, ties to the even one.
\<close>

definition roundHalfEven :: "real \<Rightarrow> int" where
  "roundHalfEven x =
     (let f = \<lfloor>x\<rfloor>; d = x - of_int f
      in if d < 1 / 2 then f
         else if 1 / 2 < d then f + 1
         else if even f then f else f + 1)"

text \<open>
  The result of an arithmetic operation whose exact value is \<open>r\<close>, in a binary format
  with \<open>prec\<close> bits of precision, least exponent \<open>- emin\<close> of the last place and values
  below \<open>2 ^ emax\<close>: \<open>r\<close> is rounded to the nearest multiple of the unit in its last place,
  ties to even, and a rounded magnitude of \<open>2 ^ emax\<close> or more is an infinity.
\<close>

definition roundBinary :: "nat \<Rightarrow> nat \<Rightarrow> nat \<Rightarrow> real \<Rightarrow> jsnum" where
  "roundBinary prec emin emax r =
     (let b = \<bar>r\<bar> * 2 ^ emin;
          s = nat (bitlen \<lfloor>b\<rfloor> - int prec);
          n = roundHalfEven (b / 2 ^ s)
      in if 2 ^ (emax + emin) \<le> n * 2 ^ s
         then (if r < 0 then NegInf else PosInf)
         else Fin ((if r < 0 then - 1 else 1) * of_int (n * 2 ^ s) / 2 ^ emin))"

text \<open>
  The doubles of JavaScript: 53 bits of precision, subnormal numbers down to
  \<open>2 ^ - 1074\<close>, finite values below \<open>2 ^ 1024\<close>.
\<close>

definition toDouble :: "real \<Rightarrow> jsnum" where
  "toDouble r = roundBinary 53 1074 1024 r"

text \<open>A real number is a double iff rounding leaves it as it is.\<close>

definition isDouble :: "real \<Rightarrow> bool" where
  "isDouble r \<longleftrightarrow> toDouble r = Fin r"

text \<open>The operator \<open>a * b\<close>.\<close>

fun js_mult :: "jsnum \<Rightarrow> jsnum \<Rightarrow> jsnum" where
  "js_mult NaN _ = NaN"
| "js_mult _ NaN = NaN"
| "js_mult (Fin x) (Fin y) = toDouble (x * y)"
| "js_mult a b =
     (if js_sign a = 0 \<or> js_sign b = 0 then NaN
      else js_signed_inf (js_sign a * js_sign b))"

text \<open>The operator \<open>a / b\<close>; a zero divisor counts as positive zero.\<close>

fun js_div :: "jsnum \<Rightarrow> jsnum \<Rightarrow> jsnum" where
  "js_div NaN _ = NaN"
| "js_div _ NaN = NaN"
| "js_div (Fin x) (Fin y) =
     (if y = 0 then (if x = 0 then NaN else js_signed_inf (js_sign (Fin x)))
      else toDouble (x / y))"
| "js_div (Fin x) b = Fin 0"
| "js_div a (Fin y) = js_signed_inf (js_sign a * (if y < 0 then - 1 else 1))"
| "js_div a b = NaN"

record ImageFileState =
  fileId :: nat
  originalFile :: fileobj
  originalUrl :: url
  compressedFile :: "fileobj option"
  compressedUrl :: "url option"
  status :: ImageStatus
  targetSize :: jsnum
  targetUnit :: SizeUnit

text \<open>
  \<open>Partial<ImageFileState>\<close>: every field may be absent. A supplied field that holds
  \<open>null\<close> is \<open>Some None\<close>.
\<close>

record updates =
  u_fileId :: "nat option"
  u_originalFile :: "fileobj option"
  u_originalUrl :: "url option"
  u_compressedFile :: "fileobj option option"
  u_compressedUrl :: "url option option"
  u_status :: "ImageStatus option"
  u_targetSize :: "jsnum option"
  u_targetUnit :: "SizeUnit option"

definition no_updates :: updates where
  "no_updates = \<lparr>u_fileId = None, u_originalFile = None, u_originalUrl = None,
     u_compressedFile = None, u_compressedUrl = None, u_status = None,
     u_targetSize = None, u_targetUnit = None\<rparr>"

text \<open>The object spread \<open>{ ...f, ...updates }\<close>.\<close>

definition spread :: "ImageFileState \<Rightarrow> updates \<Rightarrow> ImageFileState" where
  "spread f u =
     \<lparr>fileId = (case u_fileId u of None \<Rightarrow> fileId f | Some v \<Rightarrow> v),
      originalFile = (case u_originalFile u of None \<Rightarrow> originalFile f | Some v \<Rightarrow> v),
      originalUrl = (case u_originalUrl u of None \<Rightarrow> originalUrl f | Some v \<Rightarrow> v),
      compressedFile = (case u_compressedFile u of None \<Rightarrow> compressedFile f | Some v \<Rightarrow> v),
      compressedUrl = (case u_compressedUrl u of None \<Rightarrow> compressedUrl f | Some v \<Rightarrow> v),
      status = (case u_status u of None \<Rightarrow> status f | Some v \<Rightarrow> v),
      targetSize = (case u_targetSize u of None \<Rightarrow> targetSize f | Some v \<Rightarrow> v),
      targetUnit = (case u_targetUnit u of None \<Rightarrow> targetUnit f | Some v \<Rightarrow> v)\<rparr>"

text \<open>The call \<open>imageCompression(file, options)\<close> whose promise has not settled yet,
  together with the \<open>id\<close> its continuation has captured.\<close>

record run =
  run_id :: nat
  run_file :: fileobj
  maxSizeMB :: jsnum
  maxWidthOrHeight :: nat

text \<open>What \<open>createCardElement\<close> and \<open>updateGlobalUI\<close> put on the page, as far as it
  decides which handlers the user can reach.\<close>

record card =
  card_id :: nat
  thumbnail :: url
  targetControls :: bool
  controlsDisabled :: bool
  spinner :: bool
  downloadHref :: "url option"

record page =
  cards :: "card list"
  uploadVisible :: bool
  resultsVisible :: bool
  downloadAllDisabled :: bool
  applyToAllDisabled :: bool
  clearAllDisabled :: bool
  downloadCountBadge :: "nat option"

text \<open>
  The state of the closure and of the browser around it: the two variables of the closure,
  the log of object URLs handed out by \<open>URL.createObjectURL\<close>, the log of the calls of
  \<open>URL.revokeObjectURL\<close>, the outstanding compression promises and the rendered page.
\<close>

record world =
  imageFilesState :: "ImageFileState list"
  nextId :: nat
  created :: "url list"
  revoked :: "url list"
  pending :: "run list"
  view :: page

section \<open>Helpers\<close>

text \<open>\<open>URL.createObjectURL\<close> returns a URL that no earlier call has returned.\<close>

definition createObjectURL :: "world \<Rightarrow> url \<times> world" where
  "createObjectURL w = (length (created w), w\<lparr>created := created w @ [length (created w)]\<rparr>)"

definition revokeObjectURL :: "url \<Rightarrow> world \<Rightarrow> world" where
  "revokeObjectURL u w = w\<lparr>revoked := revoked w @ [u]\<rparr>"

fun findIndex :: "('a \<Rightarrow> bool) \<Rightarrow> 'a list \<Rightarrow> nat option" where
  "findIndex P [] = None"
| "findIndex P (x # xs) =
     (if P x then Some 0 else (case findIndex P xs of None \<Rightarrow> None | Some k \<Rightarrow> Some (Suc k)))"

definition updateFileState :: "nat \<Rightarrow> updates \<Rightarrow> ImageFileState list \<Rightarrow> ImageFileState list" where
  "updateFileState i u fs =
     (case findIndex (\<lambda>f. fileId f = i) fs of
        None \<Rightarrow> fs
      | Some index \<Rightarrow> fs[index := spread (fs ! index) u])"

definition find_file :: "nat \<Rightarrow> ImageFileState list \<Rightarrow> ImageFileState option" where
  "find_file i fs = List.find (\<lambda>f. fileId f = i) fs"

section \<open>Rendering\<close>

definition createCardElement :: "ImageFileState \<Rightarrow> card" where
  "createCardElement f =
     (let isCompressing = (status f = Compressing);
          isDone = (status f = Done);
          isError = (status f = Error)
      in \<lparr>card_id = fileId f,
          thumbnail = originalUrl f,
          targetControls = (\<not> isError),
          controlsDisabled = isCompressing,
          spinner = isCompressing,
          downloadHref = (if isDone then compressedUrl f else None)\<rparr>)"

definition anyCompressing :: "ImageFileState list \<Rightarrow> bool" where
  "anyCompressing fs = list_ex (\<lambda>f. status f = Compressing) fs"

definition anyDone :: "ImageFileState list \<Rightarrow> bool" where
  "anyDone fs = list_ex (\<lambda>f. status f = Done) fs"

definition readyToDownloadCount :: "ImageFileState list \<Rightarrow> nat" where
  "readyToDownloadCount fs =
     length (filter (\<lambda>f. status f = Done \<and> compressedFile f \<noteq> None) fs)"

definition updateGlobalUI :: "ImageFileState list \<Rightarrow> page \<Rightarrow> page" where
  "updateGlobalUI fs p =
     p\<lparr>downloadAllDisabled := (anyCompressing fs \<or> \<not> anyDone fs),
       applyToAllDisabled := anyCompressing fs,
       clearAllDisabled := anyCompressing fs,
       downloadCountBadge :=
         (if readyToDownloadCount fs > 0 then Some (readyToDownloadCount fs) else None)\<rparr>"

definition renderPage :: "ImageFileState list \<Rightarrow> page \<Rightarrow> page" where
  "renderPage fs p =
     (let hasFiles = (length fs > 0)
      in updateGlobalUI fs
           (p\<lparr>uploadVisible := (\<not> hasFiles),
              resultsVisible := hasFiles,
              cards := map createCardElement fs\<rparr>))"

definition render :: "world \<Rightarrow> world" where
  "render w = w\<lparr>view := renderPage (imageFilesState w) (view w)\<rparr>"

section \<open>Dispatching and settling a compression\<close>

text \<open>
  The part of \<open>compressToTargetSize\<close> that runs before the \<open>await\<close>: it ends by calling
  \<open>imageCompression\<close>, which adds an outstanding promise.
\<close>

definition compressToTargetSize :: "nat \<Rightarrow> jsnum \<Rightarrow> bool \<Rightarrow> world \<Rightarrow> world" where
  "compressToTargetSize i targetSizeBytes suppressInitialRender w =
     (case find_file i (imageFilesState w) of
        None \<Rightarrow> w
      | Some fileState \<Rightarrow>
          (let w1 = (if \<not> suppressInitialRender
                     then render (w\<lparr>imageFilesState :=
                            updateFileState i (no_updates\<lparr>u_status := Some Compressing\<rparr>)
                              (imageFilesState w)\<rparr>)
                     else w)
           in w1\<lparr>pending := pending w1 @
                   [\<lparr>run_id = i,
                     run_file = originalFile fileState,
                     maxSizeMB = js_div (js_div targetSizeBytes (Fin 1024)) (Fin 1024),
                     maxWidthOrHeight = 1920\<rparr>]\<rparr>))"

text \<open>
  The part after the \<open>await\<close>: the promise of run \<open>r\<close> is fulfilled with a file
  (\<open>Some\<close>) or rejected (\<open>None\<close>). The argument \<open>URL.createObjectURL(compressedFile)\<close> is
  evaluated before \<open>updateFileState\<close> is entered.
\<close>

definition settle :: "run \<Rightarrow> fileobj option \<Rightarrow> world \<Rightarrow> world" where
  "settle r outcome w =
     (case outcome of
        Some compressedFile' \<Rightarrow>
          (case createObjectURL w of (u, w1) \<Rightarrow>
             render (w1\<lparr>imageFilesState :=
               updateFileState (run_id r)
                 (no_updates\<lparr>u_status := Some Done,
                    u_compressedFile := Some (Some compressedFile'),
                    u_compressedUrl := Some (Some u)\<rparr>)
                 (imageFilesState w1)\<rparr>))
      | None \<Rightarrow>
          render (w\<lparr>imageFilesState :=
            updateFileState (run_id r) (no_updates\<lparr>u_status := Some Error\<rparr>)
              (imageFilesState w)\<rparr>))"

definition dropAt :: "nat \<Rightarrow> 'a list \<Rightarrow> 'a list" where
  "dropAt k xs = take k xs @ drop (Suc k) xs"

text \<open>The \<open>k\<close>-th outstanding promise settles; its continuation runs to completion.\<close>

definition complete :: "nat \<Rightarrow> fileobj option \<Rightarrow> world \<Rightarrow> world" where
  "complete k outcome w =
     (if k < length (pending w)
      then settle (pending w ! k) outcome (w\<lparr>pending := dropAt k (pending w)\<rparr>)
      else w)"

definition unitMultiplier :: "SizeUnit \<Rightarrow> jsnum" where
  "unitMultiplier u = (if u = MB then Fin (1024 * 1024) else Fin 1024)"

definition runCompressionForId :: "nat \<Rightarrow> world \<Rightarrow> world" where
  "runCompressionForId i w =
     (case find_file i (imageFilesState w) of
        None \<Rightarrow> w
      | Some fileState \<Rightarrow>
          (let multiplier = unitMultiplier (targetUnit fileState);
               targetBytes = js_mult (targetSize fileState) multiplier
           in compressToTargetSize i targetBytes False w))"

section \<open>Handlers\<close>

fun newFiles :: "fileobj list \<Rightarrow> world \<Rightarrow> ImageFileState list \<times> world" where
  "newFiles [] w = ([], w)"
| "newFiles (f # fs) w =
     (case createObjectURL (w\<lparr>nextId := nextId w + 1\<rparr>) of (u, w1) \<Rightarrow>
        (case newFiles fs w1 of (js, w2) \<Rightarrow>
           (\<lparr>fileId = nextId w, originalFile = f, originalUrl = u,
             compressedFile = None, compressedUrl = None, status = Compressing,
             targetSize = Fin 500, targetUnit = KB\<rparr> # js, w2)))"

definition processFiles :: "fileobj list \<Rightarrow> world \<Rightarrow> world" where
  "processFiles files w =
     (case newFiles files w of (nfs, w1) \<Rightarrow>
        foldl (\<lambda>w' f. runCompressionForId (fileId f) w')
          (render (w1\<lparr>imageFilesState := imageFilesState w1 @ nfs\<rparr>)) nfs)"

definition revokeBoth :: "ImageFileState \<Rightarrow> world \<Rightarrow> world" where
  "revokeBoth f w =
     (let w1 = revokeObjectURL (originalUrl f) w
      in (case compressedUrl f of None \<Rightarrow> w1 | Some u \<Rightarrow> revokeObjectURL u w1))"

definition handleRemoveImage :: "nat \<Rightarrow> world \<Rightarrow> world" where
  "handleRemoveImage i w =
     (let w1 = (case find_file i (imageFilesState w) of
                  None \<Rightarrow> w
                | Some f \<Rightarrow> revokeBoth f w)
      in render (w1\<lparr>imageFilesState := filter (\<lambda>f. fileId f \<noteq> i) (imageFilesState w1)\<rparr>))"

definition handleTargetSizeApply :: "nat \<Rightarrow> jsnum \<Rightarrow> SizeUnit \<Rightarrow> world \<Rightarrow> world" where
  "handleTargetSizeApply i newSize newUnit w =
     runCompressionForId i
       (w\<lparr>imageFilesState :=
          updateFileState i
            (no_updates\<lparr>u_targetSize := Some newSize, u_targetUnit := Some newUnit\<rparr>)
            (imageFilesState w)\<rparr>)"

definition handleReset :: "nat \<Rightarrow> world \<Rightarrow> world" where
  "handleReset i w =
     (case find_file i (imageFilesState w) of
        None \<Rightarrow> w
      | Some fileState \<Rightarrow>
          (let w1 = (case compressedUrl fileState of
                       None \<Rightarrow> w
                     | Some u \<Rightarrow> revokeObjectURL u w)
           in runCompressionForId i
                (w1\<lparr>imageFilesState :=
                   updateFileState i
                     (no_updates\<lparr>u_compressedFile := Some None,
                        u_compressedUrl := Some None,
                        u_targetSize := Some (Fin 500),
                        u_targetUnit := Some KB\<rparr>)
                     (imageFilesState w1)\<rparr>)))"

text \<open>The three ways \<open>handleApplyToAll\<close> returns.\<close>

datatype applyExit = FocusSizeInput | NothingToUpdate | Started

definition filesToUpdate :: "ImageFileState list \<Rightarrow> ImageFileState list" where
  "filesToUpdate fs = filter (\<lambda>f. status f \<noteq> Error) fs"

text \<open>The first \<open>forEach\<close> of \<open>handleApplyToAll\<close> and the \<open>render\<close> that follows it.\<close>

definition applyToAllUpdate :: "jsnum \<Rightarrow> SizeUnit \<Rightarrow> ImageFileState list \<Rightarrow> world \<Rightarrow> world" where
  "applyToAllUpdate newSize newUnit sel w =
     render (foldl (\<lambda>w' f. w'\<lparr>imageFilesState :=
                updateFileState (fileId f)
                  (no_updates\<lparr>u_targetSize := Some newSize,
                     u_targetUnit := Some newUnit,
                     u_status := Some Compressing\<rparr>)
                  (imageFilesState w')\<rparr>) w sel)"

text \<open>The second \<open>forEach\<close>.\<close>

definition applyToAllStart :: "jsnum \<Rightarrow> SizeUnit \<Rightarrow> ImageFileState list \<Rightarrow> world \<Rightarrow> world" where
  "applyToAllStart newSize newUnit sel w =
     foldl (\<lambda>w' f. compressToTargetSize (fileId f)
               (js_mult newSize (unitMultiplier newUnit)) True w') w sel"

definition handleApplyToAll :: "jsnum \<Rightarrow> SizeUnit \<Rightarrow> world \<Rightarrow> applyExit \<times> world" where
  "handleApplyToAll newSize newUnit w =
     (if js_isNaN newSize \<or> js_le newSize (Fin 0) then (FocusSizeInput, w)
      else (let sel = filesToUpdate (imageFilesState w)
            in if length sel = 0 then (NothingToUpdate, w)
               else (Started,
                     applyToAllStart newSize newUnit sel
                       (applyToAllUpdate newSize newUnit sel w))))"

definition handleClearAll :: "world \<Rightarrow> world" where
  "handleClearAll w =
     render ((foldl (\<lambda>w' f. revokeBoth f w') w (imageFilesState w))
               \<lparr>imageFilesState := [], nextId := 0\<rparr>)"

section \<open>The page as a transition system\<close>

text \<open>
  What can happen next: the user drops files, clicks a button of a card or of the toolbar,
  or an outstanding promise settles.
\<close>

datatype event =
    Submit "fileobj list"
  | Apply nat jsnum SizeUnit
  | Reset nat
  | ApplyToAll jsnum SizeUnit
  | Remove nat
  | ClearAll
  | Complete nat "fileobj option"

fun step :: "event \<Rightarrow> world \<Rightarrow> world" where
  "step (Submit files) w = processFiles files w"
| "step (Apply i n u) w = handleTargetSizeApply i n u w"
| "step (Reset i) w = handleReset i w"
| "step (ApplyToAll n u) w = snd (handleApplyToAll n u w)"
| "step (Remove i) w = handleRemoveImage i w"
| "step ClearAll w = handleClearAll w"
| "step (Complete k outcome) w = complete k outcome w"

text \<open>
  A click reaches a handler only through an element of the rendered page: the card with
  that id must be there, its \<open>Apply\<close> and \<open>Reset\<close> buttons exist unless the job is in
  error and carry \<open>disabled\<close> while it is compressing, and the toolbar buttons carry the
  \<open>disabled\<close> flags that \<open>updateGlobalUI\<close> has set.
\<close>

definition cardButtonsEnabled :: "page \<Rightarrow> nat \<Rightarrow> bool" where
  "cardButtonsEnabled p i =
     list_ex (\<lambda>c. card_id c = i \<and> targetControls c \<and> \<not> controlsDisabled c) (cards p)"

fun enabled :: "world \<Rightarrow> event \<Rightarrow> bool" where
  "enabled w (Submit files) = True"
| "enabled w (Apply i n u) = cardButtonsEnabled (view w) i"
| "enabled w (Reset i) = cardButtonsEnabled (view w) i"
| "enabled w (ApplyToAll n u) = (\<not> applyToAllDisabled (view w))"
| "enabled w (Remove i) = list_ex (\<lambda>c. card_id c = i) (cards (view w))"
| "enabled w ClearAll = (\<not> clearAllDisabled (view w))"
| "enabled w (Complete k outcome) = (k < length (pending w))"

fun exec :: "event list \<Rightarrow> world \<Rightarrow> world option" where
  "exec [] w = Some w"
| "exec (e # es) w = (if enabled w e then exec es (step e w) else None)"

text \<open>
  Modelled from the spec: the markup of the page is not among the sources, so the flags
  of the toolbar before the first \<open>render\<close> are the enablement facts that the spec gives
  for an empty store (export disabled, apply-to-all and clear-all enabled). They are the
  flags that \<open>render\<close> sets for the empty list.
\<close>

definition initialPage :: page where
  "initialPage = \<lparr>cards = [], uploadVisible = True, resultsVisible = False,
     downloadAllDisabled = True, applyToAllDisabled = False, clearAllDisabled = False,
     downloadCountBadge = None\<rparr>"

definition initialWorld :: world where
  "initialWorld = \<lparr>imageFilesState = [], nextId = 0, created = [], revoked = [],
     pending = [], view = initialPage\<rparr>"

text \<open>A page with one finished job.\<close>

definition doneJob :: ImageFileState where
  "doneJob = \<lparr>fileId = 0, originalFile = 10, originalUrl = 0,
     compressedFile = Some 20, compressedUrl = Some 1, status = Done,
     targetSize = Fin 500, targetUnit = KB\<rparr>"

definition doneWorld :: world where
  "doneWorld = \<lparr>imageFilesState = [doneJob], nextId = 1, created = [0, 1], revoked = [],
     pending = [], view = renderPage [doneJob] initialPage\<rparr>"

text \<open>A run for the id \<open>0\<close>.\<close>

definition staleRun :: run where
  "staleRun = \<lparr>run_id = 0, run_file = 10, maxSizeMB = Fin 1, maxWidthOrHeight = 1920\<rparr>"

text \<open>A page with a job that is done, a job in error and a job that is compressing.\<close>

definition mixedJobs :: "ImageFileState list" where
  "mixedJobs =
     [doneJob,
      \<lparr>fileId = 1, originalFile = 11, originalUrl = 2, compressedFile = None,
        compressedUrl = None, status = Error, targetSize = Fin 500, targetUnit = KB\<rparr>,
      \<lparr>fileId = 2, originalFile = 12, originalUrl = 3, compressedFile = None,
        compressedUrl = None, status = Compressing, targetSize = Fin 500, targetUnit = KB\<rparr>]"

definition mixedWorld :: world where
  "mixedWorld =
     \<lparr>imageFilesState = mixedJobs,
      nextId = 3, created = [0, 1, 2, 3], revoked = [],
      pending = [\<lparr>run_id = 2, run_file = 12, maxSizeMB = Fin (125 / 256),
                  maxWidthOrHeight = 1920\<rparr>],
      view = renderPage mixedJobs initialPage\<rparr>"

text \<open>What a trace leaves behind: the jobs, the URLs created, the URLs revoked and the ids
  of the outstanding runs.\<close>

definition obs :: "world \<Rightarrow>
    (nat \<times> ImageStatus \<times> url \<times> url option) list \<times> url list \<times> url list \<times> nat list" where
  "obs w = (map (\<lambda>f. (fileId f, status f, originalUrl f, compressedUrl f)) (imageFilesState w),
            created w, revoked w, map run_id (pending w))"

text \<open>The outstanding runs: the id and the file of each.\<close>

definition outstanding :: "world \<Rightarrow> (nat \<times> fileobj) list" where
  "outstanding w = map (\<lambda>r. (run_id r, run_file r)) (pending w)"

text \<open>
  What holds of the list in every state the page reaches: one job per id, every id below
  \<open>nextId\<close>, a compressed file in every job that is done, and a page rendered from the
  current list.
\<close>

definition storeInv :: "world \<Rightarrow> bool" where
  "storeInv w \<longleftrightarrow>
     distinct (map fileId (imageFilesState w)) \<and>
     list_all (\<lambda>f. fileId f < nextId w) (imageFilesState w) \<and>
     list_all (\<lambda>f. status f = Done \<longrightarrow> compressedFile f \<noteq> None) (imageFilesState w) \<and>
     view w = renderPage (imageFilesState w) initialPage"

text \<open>
  What holds of the outstanding runs as long as the page is cleared only when none is
  outstanding: their ids are below \<open>nextId\<close> and pairwise distinct, and a job with an
  outstanding run is compressing.
\<close>

definition runsInv :: "world \<Rightarrow> bool" where
  "runsInv w \<longleftrightarrow>
     list_all (\<lambda>r. run_id r < nextId w) (pending w) \<and>
     distinct (map run_id (pending w)) \<and>
     list_all (\<lambda>f. fileId f \<in> set (map run_id (pending w)) \<longrightarrow> status f = Compressing)
       (imageFilesState w)"

text \<open>Traces in which \<open>Clear all\<close> is clicked only while no promise is outstanding.\<close>

definition idleClear :: "world \<Rightarrow> event \<Rightarrow> bool" where
  "idleClear w e = (case e of ClearAll \<Rightarrow> pending w = [] | _ \<Rightarrow> True)"

fun execIdle :: "event list \<Rightarrow> world \<Rightarrow> world option" where
  "execIdle [] w = Some w"
| "execIdle (e # es) w =
     (if enabled w e \<and> idleClear w e then execIdle es (step e w) else None)"

text \<open>Any sequence of handler calls and settlements, whatever the page shows.\<close>

fun steps :: "event list \<Rightarrow> world \<Rightarrow> world" where
  "steps [] w = w"
| "steps (e # es) w = steps es (step e w)"

section \<open>Rounding to a double\<close>

lemma roundHalfEven_of_int [simp]: "roundHalfEven (of_int k) = k"
  by (simp add: roundHalfEven_def)

lemma roundHalfEven_ge_floor: "\<lfloor>x\<rfloor> \<le> roundHalfEven x"
  by (simp add: roundHalfEven_def Let_def)

lemma roundHalfEven_small: "0 \<le> x \<Longrightarrow> x < 1 / 2 \<Longrightarrow> roundHalfEven x = 0"
proof -
  assume x: "0 \<le> x" "x < 1 / 2"
  then have "\<lfloor>x\<rfloor> = 0" by (simp add: floor_eq_iff)
  with x show ?thesis by (simp add: roundHalfEven_def)
qed

lemma roundBinary_exact:
  assumes r: "\<bar>r\<bar> * 2 ^ emin = of_int n * 2 ^ s" and n: "0 \<le> n" "n < 2 ^ prec"
    and b: "n * 2 ^ s < 2 ^ (emax + emin)"
  shows "roundBinary prec emin emax r = Fin r"
proof -
  define t where "t = nat (bitlen (n * 2 ^ s) - int prec)"
  have fl: "\<lfloor>\<bar>r\<bar> * 2 ^ emin\<rfloor> = n * 2 ^ s"
    unfolding r by (metis floor_of_int of_int_mult of_int_numeral of_int_power)
  have ts: "t \<le> s"
  proof (cases "n = 0")
    case True
    then show ?thesis by (simp add: t_def)
  next
    case False
    with n have "0 < n" by simp
    then have "bitlen (n * 2 ^ s) = bitlen n + int s" by simp
    moreover have "bitlen n \<le> int prec"
      using n by (simp add: bitlen_le_iff_power)
    ultimately show ?thesis by (simp add: t_def)
  qed
  from ts obtain d where d: "s = t + d" by (auto simp: le_iff_add)
  have q: "\<bar>r\<bar> * 2 ^ emin / 2 ^ t = (of_int (n * 2 ^ d) :: real)"
    by (simp add: r d power_add)
  have recomb: "n * 2 ^ d * 2 ^ t = n * 2 ^ s"
    by (simp add: d power_add)
  have val: "(if r < 0 then - 1 else 1) * (of_int (n * 2 ^ s) :: real) / 2 ^ emin = r"
  proof -
    have "(of_int (n * 2 ^ s) :: real) = \<bar>r\<bar> * 2 ^ emin" using r by simp
    then show ?thesis by (simp add: abs_if)
  qed
  have "roundBinary prec emin emax r =
      (if 2 ^ (emax + emin) \<le> n * 2 ^ s then (if r < 0 then NegInf else PosInf)
       else Fin ((if r < 0 then - 1 else 1) * of_int (n * 2 ^ s) / 2 ^ emin))"
    unfolding roundBinary_def Let_def fl t_def [symmetric] q roundHalfEven_of_int recomb ..
  with b val show ?thesis by simp
qed

lemma roundBinary_underflow:
  assumes "\<bar>r\<bar> * 2 ^ emin < 1 / 2"
  shows "roundBinary prec emin emax r = Fin 0"
proof -
  have nn: "0 \<le> \<bar>r\<bar> * 2 ^ emin" by simp
  have fl: "\<lfloor>\<bar>r\<bar> * 2 ^ emin\<rfloor> = 0"
    using assms nn by (simp add: floor_eq_iff)
  have rn: "roundHalfEven (\<bar>r\<bar> * 2 ^ emin) = 0"
    by (rule roundHalfEven_small [OF nn assms])
  show ?thesis
    unfolding roundBinary_def Let_def fl by (simp add: rn)
qed

lemma roundBinary_overflow:
  assumes "2 ^ emax \<le> \<bar>r\<bar>" and "0 < prec"
  shows "roundBinary prec emin emax r = (if r < 0 then NegInf else PosInf)"
proof -
  define b where "b = \<bar>r\<bar> * 2 ^ emin"
  define m where "m = \<lfloor>b\<rfloor>"
  define s where "s = nat (bitlen m - int prec)"
  have bb: "2 ^ (emax + emin) \<le> b"
    unfolding b_def power_add using assms(1) by (simp add: mult_right_mono)
  then have mm: "2 ^ (emax + emin) \<le> m"
    unfolding m_def by (simp add: le_floor_iff)
  then have mpos: "0 < m" by (smt (verit) zero_less_power)
  have e: "nat (int (emax + emin) + 1) - 1 = emax + emin"
    by (simp add: nat_add_distrib)
  have bl: "int (emax + emin) + 1 \<le> bitlen m"
    unfolding bitlen_ge_iff_power e using mm by simp
  note bd = bitlen_bounds [OF mpos]
  have big: "(2::int) ^ (emax + emin) \<le> roundHalfEven (b / 2 ^ s) * 2 ^ s"
  proof (cases "bitlen m \<le> int prec")
    case True
    then have "s = 0" by (simp add: s_def)
    then have "roundHalfEven (b / 2 ^ s) * 2 ^ s = roundHalfEven b" by simp
    also have "\<dots> \<ge> m" unfolding m_def by (rule roundHalfEven_ge_floor)
    finally show ?thesis using mm by simp
  next
    case False
    then have sp: "int s = bitlen m - int prec" by (simp add: s_def)
    obtain p where p: "prec = Suc p" using assms(2) by (cases prec) auto
    have nb: "nat (bitlen m - 1) = s + p"
      using sp p by simp
    have "(2::int) ^ (s + p) \<le> m" using bd nb by simp
    then have "(2::real) ^ (s + p) \<le> of_int m"
      by (metis of_int_le_iff of_int_numeral of_int_power)
    also have "\<dots> \<le> b" unfolding m_def by simp
    finally have "(2::real) ^ p \<le> b / 2 ^ s"
      by (simp add: power_add pos_le_divide_eq mult.commute)
    then have "(2::int) ^ p \<le> \<lfloor>b / 2 ^ s\<rfloor>"
      by (simp add: le_floor_iff)
    also have "\<dots> \<le> roundHalfEven (b / 2 ^ s)" by (rule roundHalfEven_ge_floor)
    finally have "(2::int) ^ p \<le> roundHalfEven (b / 2 ^ s)" .
    then have "(2::int) ^ p * 2 ^ s \<le> roundHalfEven (b / 2 ^ s) * 2 ^ s"
      by (rule mult_right_mono) simp
    moreover have "(2::int) ^ (emax + emin) \<le> 2 ^ p * 2 ^ s"
    proof -
      have "int (emax + emin) \<le> int (p + s)"
        using bl sp p by simp
      then have "emax + emin \<le> p + s" by simp
      then show ?thesis
        unfolding power_add [symmetric] by (rule power_increasing) simp
    qed
    ultimately show ?thesis by (rule order_trans [rotated])
  qed
  show ?thesis
    unfolding roundBinary_def Let_def b_def [symmetric] m_def [symmetric] s_def [symmetric]
    using big by simp
qed



lemma roundBinary_fixed:
  assumes "roundBinary prec emin emax r = Fin r"
  shows "\<exists>n s. \<bar>r\<bar> * 2 ^ emin = of_int n * 2 ^ s \<and> 0 \<le> n \<and> n < 2 ^ prec \<and>
           n * 2 ^ s < 2 ^ (emax + emin)"
proof -
  define b where "b = \<bar>r\<bar> * 2 ^ emin"
  define m where "m = \<lfloor>b\<rfloor>"
  define s where "s = nat (bitlen m - int prec)"
  define n where "n = roundHalfEven (b / 2 ^ s)"
  have unf: "roundBinary prec emin emax r =
      (if 2 ^ (emax + emin) \<le> n * 2 ^ s then (if r < 0 then NegInf else PosInf)
       else Fin ((if r < 0 then - 1 else 1) * of_int (n * 2 ^ s) / 2 ^ emin))"
    unfolding roundBinary_def Let_def b_def [symmetric] m_def [symmetric] s_def [symmetric]
      n_def [symmetric] ..
  have no: "n * 2 ^ s < 2 ^ (emax + emin)"
    using assms unfolding unf by (auto split: if_splits)
  then have val: "(if r < 0 then - 1 else 1) * of_int (n * 2 ^ s) / 2 ^ emin = r"
    using assms unfolding unf by simp
  have b0: "0 \<le> b" by (simp add: b_def)
  then have "0 \<le> b / 2 ^ s" by simp
  then have "0 \<le> \<lfloor>b / 2 ^ s\<rfloor>" by simp
  then have n0: "0 \<le> n"
    unfolding n_def using roundHalfEven_ge_floor [of "b / 2 ^ s"] by linarith
  have bn: "b = of_int (n * 2 ^ s)"
  proof -
    from val have v: "(if r < 0 then - 1 else 1) * of_int (n * 2 ^ s) = r * 2 ^ emin"
      by (simp add: field_simps)
    show ?thesis
    proof (cases "r < 0")
      case True
      with v have "- (r * 2 ^ emin) = of_int (n * 2 ^ s)" by simp
      with True show ?thesis by (simp add: b_def abs_if)
    next
      case False
      with v have "r * 2 ^ emin = of_int (n * 2 ^ s)" by simp
      with False show ?thesis by (simp add: b_def abs_if)
    qed
  qed
  then have mn: "m = n * 2 ^ s" unfolding m_def by (simp only: floor_of_int)
  have np: "n < 2 ^ prec"
  proof (cases "m = 0")
    case True
    with mn have "n = 0" by simp
    then show ?thesis by simp
  next
    case False
    with mn have "n \<noteq> 0" by auto
    with n0 have "0 < n" by simp
    then have mpos: "0 < m" unfolding mn by simp
    note bd = bitlen_bounds [OF mpos]
    show ?thesis
    proof (cases "bitlen m \<le> int prec")
      case True
      then have "s = 0" by (simp add: s_def)
      with mn have "n = m" by simp
      also have "m < 2 ^ nat (bitlen m)" using bd by (rule conjunct2)
      also have "(2::int) ^ nat (bitlen m) \<le> 2 ^ prec"
      proof (rule power_increasing)
        show "nat (bitlen m) \<le> prec" using True by (simp add: nat_le_iff)
      qed simp
      finally show ?thesis .
    next
      case False
      then have "int (prec + s) = bitlen m" by (simp add: s_def)
      then have e: "nat (bitlen m) = prec + s" by (metis nat_int)
      from bd have "m < 2 ^ nat (bitlen m)" by (rule conjunct2)
      then have "n * 2 ^ s < 2 ^ (prec + s)"
        unfolding e unfolding mn .
      then have "n * 2 ^ s < 2 ^ prec * 2 ^ s" by (simp only: power_add)
      then show ?thesis by (rule mult_right_less_imp_less) simp
    qed
  qed
  from bn n0 np no show ?thesis
    unfolding b_def by (intro exI [of _ n] exI [of _ s]) simp
qed

lemma toDouble_dyadic:
  assumes "\<bar>n\<bar> < 2 ^ 53" and "k \<le> 1074"
  shows "toDouble (of_int n / 2 ^ k) = Fin (of_int n / 2 ^ k)"
proof -
  from assms(2) obtain d where d: "1074 = k + d" by (auto simp: le_iff_add)
  have e: "\<bar>real_of_int n / 2 ^ k\<bar> * 2 ^ (k + d) = real_of_int \<bar>n\<bar> * 2 ^ d"
    by (simp add: power_add)
  have "\<bar>n\<bar> * 2 ^ d < 2 ^ 53 * 2 ^ d"
    using assms(1) by (rule mult_strict_right_mono) simp
  also have "\<dots> = 2 ^ (53 + d)" by (simp only: power_add)
  also have "\<dots> \<le> (2::int) ^ (1024 + (k + d))"
    by (rule power_increasing) simp_all
  finally have b: "\<bar>n\<bar> * 2 ^ d < 2 ^ (1024 + (k + d))" .
  have "roundBinary 53 (k + d) 1024 (of_int n / 2 ^ k) = Fin (of_int n / 2 ^ k)"
    by (rule roundBinary_exact [OF e _ assms(1) b]) simp
  then show ?thesis
    unfolding toDouble_def d [symmetric] .
qed


lemma roundBinary_scale:
  assumes "roundBinary prec emin emax r = Fin r" and "\<bar>r\<bar> * 2 ^ k < 2 ^ emax"
  shows "roundBinary prec emin emax (r * 2 ^ k) = Fin (r * 2 ^ k)"
proof -
  from roundBinary_fixed [OF assms(1)] obtain n s
    where ns: "\<bar>r\<bar> * 2 ^ emin = of_int n * 2 ^ s" "0 \<le> n" "n < 2 ^ prec" by blast
  have e: "\<bar>r * 2 ^ k\<bar> * 2 ^ emin = of_int n * 2 ^ (s + k)"
  proof -
    have "\<bar>r * 2 ^ k\<bar> * 2 ^ emin = (\<bar>r\<bar> * 2 ^ emin) * 2 ^ k"
      by (simp add: abs_mult)
    also have "\<dots> = of_int n * 2 ^ (s + k)"
      unfolding ns(1) by (simp add: power_add)
    finally show ?thesis .
  qed
  have "(of_int (n * 2 ^ (s + k)) :: real) = \<bar>r * 2 ^ k\<bar> * 2 ^ emin"
    unfolding e by simp
  also have "\<dots> = (\<bar>r\<bar> * 2 ^ k) * 2 ^ emin"
    by (simp add: abs_mult)
  also have "\<dots> < 2 ^ emax * 2 ^ emin"
    using assms(2) by (rule mult_strict_right_mono) simp
  also have "\<dots> = of_int (2 ^ (emax + emin))"
    by (simp add: power_add)
  finally have b: "n * 2 ^ (s + k) < 2 ^ (emax + emin)"
    by (simp only: of_int_less_iff)
  show ?thesis
    by (rule roundBinary_exact [OF e ns(2,3) b])
qed

lemma toDouble_scale:
  "isDouble r \<Longrightarrow> \<bar>r\<bar> * 2 ^ k < 2 ^ 1024 \<Longrightarrow> toDouble (r * 2 ^ k) = Fin (r * 2 ^ k)"
  unfolding isDouble_def toDouble_def by (rule roundBinary_scale)

lemma toDouble_overflow:
  "2 ^ 1024 \<le> \<bar>r\<bar> \<Longrightarrow> toDouble r = (if r < 0 then NegInf else PosInf)"
  unfolding toDouble_def by (rule roundBinary_overflow) simp_all

lemma toDouble_underflow:
  "\<bar>r\<bar> * 2 ^ 1074 < 1 / 2 \<Longrightarrow> toDouble r = Fin 0"
  unfolding toDouble_def by (rule roundBinary_underflow)

lemma toDouble_fast:
  "toDouble r =
     (if \<bar>r * 2 ^ 20\<bar> < 2 ^ 53 \<and> r * 2 ^ 20 = of_int \<lfloor>r * 2 ^ 20\<rfloor>
      then Fin r else roundBinary 53 1074 1024 r)"
proof (cases "\<bar>r * 2 ^ 20\<bar> < 2 ^ 53 \<and> r * 2 ^ 20 = of_int \<lfloor>r * 2 ^ 20\<rfloor>")
  case True
  define n where "n = \<lfloor>r * 2 ^ 20\<rfloor>"
  from True have rn: "r * 2 ^ 20 = of_int n" and "\<bar>(of_int n :: real)\<bar> < 2 ^ 53"
    by (simp_all add: n_def)
  then have "\<bar>n\<bar> < 2 ^ 53"
    by (metis of_int_abs of_int_less_iff of_int_numeral of_int_power)
  then have "toDouble (of_int n / 2 ^ 20) = Fin (of_int n / 2 ^ 20)"
    by (rule toDouble_dyadic) simp
  moreover have "of_int n / 2 ^ 20 = r"
    unfolding rn [symmetric] by simp
  ultimately have "toDouble r = Fin r" by simp
  then show ?thesis using True by (simp only: if_P)
next
  case False
  then show ?thesis by (simp only: if_not_P if_False toDouble_def)
qed


text \<open>
  A multiple of \<open>2 ^ - 20\<close> below \<open>2 ^ 33\<close> is a double; evaluation takes this short
  way where it can.
\<close>

declare toDouble_fast [code]

section \<open>Basic facts about the helpers\<close>

lemma no_updates_sel [simp]:
  "u_fileId no_updates = None" "u_originalFile no_updates = None"
  "u_originalUrl no_updates = None" "u_compressedFile no_updates = None"
  "u_compressedUrl no_updates = None" "u_status no_updates = None"
  "u_targetSize no_updates = None" "u_targetUnit no_updates = None"
  by (simp_all add: no_updates_def)

lemma spread_sel [simp]:
  "fileId (spread f u) = (case u_fileId u of None \<Rightarrow> fileId f | Some v \<Rightarrow> v)"
  "originalFile (spread f u) = (case u_originalFile u of None \<Rightarrow> originalFile f | Some v \<Rightarrow> v)"
  "originalUrl (spread f u) = (case u_originalUrl u of None \<Rightarrow> originalUrl f | Some v \<Rightarrow> v)"
  "compressedFile (spread f u) = (case u_compressedFile u of None \<Rightarrow> compressedFile f | Some v \<Rightarrow> v)"
  "compressedUrl (spread f u) = (case u_compressedUrl u of None \<Rightarrow> compressedUrl f | Some v \<Rightarrow> v)"
  "status (spread f u) = (case u_status u of None \<Rightarrow> status f | Some v \<Rightarrow> v)"
  "targetSize (spread f u) = (case u_targetSize u of None \<Rightarrow> targetSize f | Some v \<Rightarrow> v)"
  "targetUnit (spread f u) = (case u_targetUnit u of None \<Rightarrow> targetUnit f | Some v \<Rightarrow> v)"
  by (simp_all add: spread_def)

lemma updateFileState_Nil [simp]: "updateFileState i u [] = []"
  by (simp add: updateFileState_def)

lemma updateFileState_Cons [simp]:
  "updateFileState i u (f # fs) =
     (if fileId f = i then spread f u # fs else f # updateFileState i u fs)"
  by (simp add: updateFileState_def split: option.splits)

lemma find_file_Nil [simp]: "find_file i [] = None"
  by (simp add: find_file_def)

lemma find_file_Cons [simp]:
  "find_file i (f # fs) = (if fileId f = i then Some f else find_file i fs)"
  by (simp add: find_file_def)

lemma length_updateFileState [simp]: "length (updateFileState i u fs) = length fs"
  by (induction fs) simp_all

lemma updateFileState_absent: "find_file i fs = None \<Longrightarrow> updateFileState i u fs = fs"
  by (induction fs) (simp_all split: if_splits)

lemma find_file_None_iff: "find_file i fs = None \<longleftrightarrow> i \<notin> fileId ` set fs"
  by (induction fs) auto

lemma revoked_foldl_revokeBoth:
  "revoked (foldl (\<lambda>w' f. revokeBoth f w') w fs) =
     revoked w @ concat (map (\<lambda>f. originalUrl f # (case compressedUrl f of None \<Rightarrow> [] | Some u \<Rightarrow> [u])) fs)"
  by (induction fs arbitrary: w)
     (simp_all add: revokeBoth_def revokeObjectURL_def Let_def split: option.splits)

lemma frame_foldl_revokeBoth:
  "created (foldl (\<lambda>w' f. revokeBoth f w') w fs) = created w \<and>
   pending (foldl (\<lambda>w' f. revokeBoth f w') w fs) = pending w \<and>
   view (foldl (\<lambda>w' f. revokeBoth f w') w fs) = view w"
  by (induction fs arbitrary: w)
     (simp_all add: revokeBoth_def revokeObjectURL_def Let_def split: option.splits)

lemma render_fields [simp]:
  "imageFilesState (render w) = imageFilesState w"
  "nextId (render w) = nextId w"
  "created (render w) = created w"
  "revoked (render w) = revoked w"
  "pending (render w) = pending w"
  "view (render w) = renderPage (imageFilesState w) (view w)"
  by (simp_all add: render_def)

section \<open>Clearing the page\<close>

text \<open>
  Claim C8. \<open>handleClearAll\<close>, on any state, revokes the original URL of every job and
  its compressed URL when it has one, in the order of the list; it creates no URL, leaves
  the list empty and sets \<open>nextId\<close> to \<open>0\<close>, so that the next file that is added gets the
  id \<open>0\<close> again.
\<close>

theorem handleClearAll_releases_clears_resets:
  "revoked (handleClearAll w) =
     revoked w @ concat (map (\<lambda>f. originalUrl f #
        (case compressedUrl f of None \<Rightarrow> [] | Some u \<Rightarrow> [u])) (imageFilesState w)) \<and>
   created (handleClearAll w) = created w \<and>
   imageFilesState (handleClearAll w) = [] \<and>
   nextId (handleClearAll w) = 0 \<and>
   map fileId (imageFilesState (processFiles [f] (handleClearAll w))) = [0]"
  apply (intro conjI)
  apply (simp add: handleClearAll_def revoked_foldl_revokeBoth)
  apply (simp add: handleClearAll_def frame_foldl_revokeBoth)
  apply (simp add: handleClearAll_def)
  apply (simp add: handleClearAll_def)
  apply (simp add: handleClearAll_def processFiles_def createObjectURL_def runCompressionForId_def compressToTargetSize_def Let_def)
  done

theorem handleClearAll_witness:
  "revoked (handleClearAll doneWorld) = [0, 1] \<and>
   imageFilesState (handleClearAll doneWorld) = [] \<and>
   nextId (handleClearAll doneWorld) = 0 \<and>
   map fileId (imageFilesState (processFiles [7] (handleClearAll doneWorld))) = [0]"
  using handleClearAll_releases_clears_resets [of doneWorld 7]
  by (simp add: doneWorld_def doneJob_def)

section \<open>Validation of the size given to Apply to all\<close>

text \<open>
  Claim C2, as amended. For every state and every size that is \<open>NaN\<close> (not a number), or
  at most \<open>0\<close> (negative infinity included), \<open>handleApplyToAll\<close> leaves through its
  validation branch, which focuses the size input, and returns the state as it was: no job
  changes and no compression starts.
\<close>

theorem handleApplyToAll_rejects_invalid_size:
  "n = NaN \<or> n = NegInf \<or> (\<exists>x. n = Fin x \<and> x \<le> 0) \<Longrightarrow>
     handleApplyToAll n u w = (FocusSizeInput, w)"
  by (auto simp: handleApplyToAll_def)

theorem handleApplyToAll_rejects_witness:
  "handleApplyToAll NaN KB doneWorld = (FocusSizeInput, doneWorld) \<and>
   handleApplyToAll NegInf MB doneWorld = (FocusSizeInput, doneWorld) \<and>
   handleApplyToAll (Fin 0) KB doneWorld = (FocusSizeInput, doneWorld) \<and>
   handleApplyToAll (Fin (- 3)) KB doneWorld = (FocusSizeInput, doneWorld)"
  using handleApplyToAll_rejects_invalid_size [of NaN KB doneWorld]
        handleApplyToAll_rejects_invalid_size [of NegInf MB doneWorld]
        handleApplyToAll_rejects_invalid_size [of "Fin 0" KB doneWorld]
        handleApplyToAll_rejects_invalid_size [of "Fin (- 3)" KB doneWorld]
  by simp

text \<open>
  The size \<open>+Infinity\<close> is neither \<open>NaN\<close> nor at most \<open>0\<close>: the guard lets it through,
  the finished job is set to compressing with that target size and a compression starts.
\<close>

theorem handleApplyToAll_PosInf_counterexample:
  "fst (handleApplyToAll PosInf KB doneWorld) = Started \<and>
   map status (imageFilesState (snd (handleApplyToAll PosInf KB doneWorld))) = [Compressing] \<and>
   map targetSize (imageFilesState (snd (handleApplyToAll PosInf KB doneWorld))) = [PosInf] \<and>
   map maxSizeMB (pending (snd (handleApplyToAll PosInf KB doneWorld))) = [PosInf]"
  by (simp add: handleApplyToAll_def filesToUpdate_def doneWorld_def doneJob_def
        applyToAllUpdate_def applyToAllStart_def compressToTargetSize_def unitMultiplier_def
        js_signed_inf_def)

section \<open>The toolbar\<close>

lemma readyToDownloadCount_eq:
  "\<forall>f \<in> set fs. status f = Done \<longrightarrow> compressedFile f \<noteq> None \<Longrightarrow>
   readyToDownloadCount fs = length (filter (\<lambda>f. status f = Done) fs)"
  unfolding readyToDownloadCount_def
  by (rule arg_cong [where f = length], rule filter_cong) auto

lemma anyDone_iff_count: "anyDone fs \<longleftrightarrow> 0 < length (filter (\<lambda>f. status f = Done) fs)"
  by (auto simp: anyDone_def list_ex_iff filter_empty_conv)

lemma renderPage_sel [simp]:
  "downloadAllDisabled (renderPage fs p) = (anyCompressing fs \<or> \<not> anyDone fs)"
  "applyToAllDisabled (renderPage fs p) = anyCompressing fs"
  "clearAllDisabled (renderPage fs p) = anyCompressing fs"
  "downloadCountBadge (renderPage fs p) =
     (if readyToDownloadCount fs > 0 then Some (readyToDownloadCount fs) else None)"
  "cards (renderPage fs p) = map createCardElement fs"
  "uploadVisible (renderPage fs p) = (fs = [])"
  "resultsVisible (renderPage fs p) = (fs \<noteq> [])"
  by (simp_all add: renderPage_def updateGlobalUI_def Let_def)

text \<open>
  What \<open>updateGlobalUI\<close> computes from any list; the count on the badge is the number of
  jobs that are done only when each of them has a compressed file.
\<close>

lemma updateGlobalUI_facts:
  "(anyCompressing (imageFilesState w) \<longleftrightarrow>
      (\<exists>f \<in> set (imageFilesState w). status f = Compressing)) \<and>
   (\<not> downloadAllDisabled (view (render w)) \<longleftrightarrow>
      0 < length (filter (\<lambda>f. status f = Done) (imageFilesState w)) \<and>
      \<not> anyCompressing (imageFilesState w)) \<and>
   (\<not> applyToAllDisabled (view (render w)) \<longleftrightarrow> \<not> anyCompressing (imageFilesState w)) \<and>
   (\<not> clearAllDisabled (view (render w)) \<longleftrightarrow> \<not> anyCompressing (imageFilesState w)) \<and>
   downloadCountBadge (view (render w)) =
     (if 0 < readyToDownloadCount (imageFilesState w)
      then Some (readyToDownloadCount (imageFilesState w)) else None) \<and>
   ((\<forall>f \<in> set (imageFilesState w). status f = Done \<longrightarrow> compressedFile f \<noteq> None) \<longrightarrow>
      readyToDownloadCount (imageFilesState w) =
        length (filter (\<lambda>f. status f = Done) (imageFilesState w)) \<and>
      (\<not> downloadAllDisabled (view (render w)) \<longleftrightarrow>
         0 < readyToDownloadCount (imageFilesState w) \<and> \<not> anyCompressing (imageFilesState w)))"
proof -
  have r: "anyCompressing (imageFilesState w) \<longleftrightarrow>
            (\<exists>f \<in> set (imageFilesState w). status f = Compressing)"
    by (simp add: anyCompressing_def list_ex_iff)
  have d: "\<not> downloadAllDisabled (view (render w)) \<longleftrightarrow>
            0 < length (filter (\<lambda>f. status f = Done) (imageFilesState w)) \<and>
            \<not> anyCompressing (imageFilesState w)"
    by (simp add: anyDone_iff_count) blast
  have a: "\<not> applyToAllDisabled (view (render w)) \<longleftrightarrow> \<not> anyCompressing (imageFilesState w)"
    by simp
  have l: "\<not> clearAllDisabled (view (render w)) \<longleftrightarrow> \<not> anyCompressing (imageFilesState w)"
    by simp
  have b: "downloadCountBadge (view (render w)) =
     (if 0 < readyToDownloadCount (imageFilesState w)
      then Some (readyToDownloadCount (imageFilesState w)) else None)"
    by simp
  have c: "readyToDownloadCount (imageFilesState w) =
           length (filter (\<lambda>f. status f = Done) (imageFilesState w))"
    if "\<forall>f \<in> set (imageFilesState w). status f = Done \<longrightarrow> compressedFile f \<noteq> None"
    using that by (rule readyToDownloadCount_eq)
  from r d a l b c show ?thesis by metis
qed

section \<open>Starting and settling a compression\<close>

lemma find_file_updateFileState:
  "u_fileId u = None \<Longrightarrow>
   find_file j (updateFileState i u fs) =
     (if j = i then map_option (\<lambda>f. spread f u) (find_file i fs) else find_file j fs)"
  by (induction fs) auto

lemma map_fileId_updateFileState [simp]:
  "u_fileId u = None \<Longrightarrow> map fileId (updateFileState i u fs) = map fileId fs"
  by (induction fs) auto

text \<open>The run that \<open>compressToTargetSize\<close> hands to \<open>imageCompression\<close>.\<close>

lemma compressToTargetSize_absent:
  "find_file i (imageFilesState w) = None \<Longrightarrow> compressToTargetSize i b s w = w"
  by (simp add: compressToTargetSize_def)

lemma compressToTargetSize_sel:
  assumes "find_file i (imageFilesState w) = Some f"
  shows "pending (compressToTargetSize i b s w) = pending w @
           [\<lparr>run_id = i, run_file = originalFile f,
             maxSizeMB = js_div (js_div b (Fin 1024)) (Fin 1024), maxWidthOrHeight = 1920\<rparr>]"
    and "imageFilesState (compressToTargetSize i b s w) =
           (if s then imageFilesState w
            else updateFileState i (no_updates\<lparr>u_status := Some Compressing\<rparr>) (imageFilesState w))"
    and "created (compressToTargetSize i b s w) = created w"
    and "revoked (compressToTargetSize i b s w) = revoked w"
    and "nextId (compressToTargetSize i b s w) = nextId w"
    and "view (compressToTargetSize i b s w) =
           (if s then view w
            else renderPage (updateFileState i (no_updates\<lparr>u_status := Some Compressing\<rparr>)
                   (imageFilesState w)) (view w))"
  using assms by (simp_all add: compressToTargetSize_def Let_def)

lemma settle_sel:
  "pending (settle r outcome w) = pending w"
  "nextId (settle r outcome w) = nextId w"
  "revoked (settle r outcome w) = revoked w"
  "created (settle r outcome w) =
     (case outcome of None \<Rightarrow> created w | Some c \<Rightarrow> created w @ [length (created w)])"
  "imageFilesState (settle r outcome w) =
     (case outcome of
        None \<Rightarrow> updateFileState (run_id r) (no_updates\<lparr>u_status := Some Error\<rparr>) (imageFilesState w)
      | Some c \<Rightarrow> updateFileState (run_id r)
          (no_updates\<lparr>u_status := Some Done, u_compressedFile := Some (Some c),
             u_compressedUrl := Some (Some (length (created w)))\<rparr>) (imageFilesState w))"
  "view (settle r outcome w) = renderPage (imageFilesState (settle r outcome w)) (view w)"
  by (simp_all add: settle_def createObjectURL_def split: option.splits)

lemma pending_applyToAllStart:
  "\<forall>f \<in> set sel. find_file (fileId f) (imageFilesState w) \<noteq> None \<Longrightarrow>
   pending (applyToAllStart n u sel w) = pending w @
     map (\<lambda>f. \<lparr>run_id = fileId f,
               run_file = originalFile (the (find_file (fileId f) (imageFilesState w))),
               maxSizeMB = js_div (js_div (js_mult n (unitMultiplier u)) (Fin 1024)) (Fin 1024),
               maxWidthOrHeight = 1920\<rparr>) sel \<and>
   imageFilesState (applyToAllStart n u sel w) = imageFilesState w \<and>
   created (applyToAllStart n u sel w) = created w \<and>
   revoked (applyToAllStart n u sel w) = revoked w \<and>
   nextId (applyToAllStart n u sel w) = nextId w \<and>
   view (applyToAllStart n u sel w) = view w"
proof (induction sel arbitrary: w)
  case Nil
  then show ?case by (simp add: applyToAllStart_def)
next
  case (Cons g sel)
  from Cons.prems obtain f where f: "find_file (fileId g) (imageFilesState w) = Some f"
    by auto
  let ?w = "compressToTargetSize (fileId g) (js_mult n (unitMultiplier u)) True w"
  have st: "imageFilesState ?w = imageFilesState w"
    using compressToTargetSize_sel(2) [OF f] by simp
  have "\<forall>f \<in> set sel. find_file (fileId f) (imageFilesState ?w) \<noteq> None"
    using Cons.prems st by simp
  from Cons.IH [OF this] have ih:
    "pending (applyToAllStart n u sel ?w) = pending ?w @
     map (\<lambda>f. \<lparr>run_id = fileId f,
               run_file = originalFile (the (find_file (fileId f) (imageFilesState w))),
               maxSizeMB = js_div (js_div (js_mult n (unitMultiplier u)) (Fin 1024)) (Fin 1024),
               maxWidthOrHeight = 1920\<rparr>) sel"
    "imageFilesState (applyToAllStart n u sel ?w) = imageFilesState w"
    "created (applyToAllStart n u sel ?w) = created ?w"
    "revoked (applyToAllStart n u sel ?w) = revoked ?w"
    "nextId (applyToAllStart n u sel ?w) = nextId ?w"
    "view (applyToAllStart n u sel ?w) = view ?w"
    by (simp_all add: st)
  have unf: "applyToAllStart n u (g # sel) w = applyToAllStart n u sel ?w"
    by (simp add: applyToAllStart_def)
  show ?case
    unfolding unf 
    using ih compressToTargetSize_sel [OF f, of "js_mult n (unitMultiplier u)" True]
    by (simp add: f)
qed


lemma updateFileState_found:
  "find_file i fs = Some f \<Longrightarrow>
   \<exists>k<length fs. fs ! k = f \<and> (\<forall>j<k. fileId (fs ! j) \<noteq> i) \<and>
      updateFileState i u fs = fs[k := spread f u]"
proof (induction fs)
  case Nil
  then show ?case by simp
next
  case (Cons g fs)
  show ?case
  proof (cases "fileId g = i")
    case True
    with Cons.prems have "g = f" by simp
    with True show ?thesis by (intro exI [of _ 0]) simp
  next
    case False
    with Cons.prems have "find_file i fs = Some f" by simp
    from Cons.IH [OF this] obtain k where k: "k < length fs" "fs ! k = f"
      "\<forall>j<k. fileId (fs ! j) \<noteq> i" "updateFileState i u fs = fs[k := spread f u]"
      by blast
    have "\<forall>j<Suc k. fileId ((g # fs) ! j) \<noteq> i"
      using False k(3) by (auto simp: less_Suc_eq_0_disj)
    with k False show ?thesis by (intro exI [of _ "Suc k"]) simp
  qed
qed

lemma find_file_Some_fileId: "find_file i fs = Some f \<Longrightarrow> fileId f = i \<and> f \<in> set fs"
  by (induction fs) (auto split: if_splits)

lemma runCompressionForId_absent:
  "find_file i (imageFilesState w) = None \<Longrightarrow> runCompressionForId i w = w"
  by (simp add: runCompressionForId_def)

lemma runCompressionForId_found:
  "find_file i (imageFilesState w) = Some f \<Longrightarrow>
   runCompressionForId i w =
     compressToTargetSize i (js_mult (targetSize f) (unitMultiplier (targetUnit f))) False w"
  by (simp add: runCompressionForId_def Let_def)

lemma unitMultiplier_Fin:
  "unitMultiplier u = Fin (case u of KB \<Rightarrow> 1024 | MB \<Rightarrow> 1024 * 1024)"
  by (cases u) (simp_all add: unitMultiplier_def)

lemma budget_exact:
  assumes d: "isDouble m" and b: "\<bar>m\<bar> * 2 ^ 20 < 2 ^ 1024"
  shows "js_div (js_div (toDouble (m * 2 ^ 20)) (Fin 1024)) (Fin 1024) = Fin m"
proof -
  have a: "toDouble (m * 2 ^ 20) = Fin (m * 2 ^ 20)"
    by (rule toDouble_scale [OF d b])
  have "\<bar>m\<bar> * 2 ^ 10 \<le> \<bar>m\<bar> * 2 ^ 20"
    by (rule mult_left_mono) simp_all
  from this b have b10: "\<bar>m\<bar> * 2 ^ 10 < 2 ^ 1024" by (rule le_less_trans)
  have c: "toDouble (m * 2 ^ 10) = Fin (m * 2 ^ 10)"
    by (rule toDouble_scale [OF d b10])
  have e1: "m * 2 ^ 20 / 1024 = m * 2 ^ 10" by simp
  have e2: "m * 2 ^ 10 / 1024 = m" by simp
  have z: "(1024::real) \<noteq> 0" by simp
  have s1: "js_div (Fin (m * 2 ^ 20)) (Fin 1024) = Fin (m * 2 ^ 10)"
    unfolding js_div.simps using z by (simp only: if_False e1 c)
  have s2: "js_div (Fin (m * 2 ^ 10)) (Fin 1024) = Fin m"
    unfolding js_div.simps using z d by (simp only: if_False e2 isDouble_def)
  show ?thesis
    unfolding a s1 s2 ..
qed

lemma budget_500_KB:
  "js_div (js_div (js_mult (Fin 500) (unitMultiplier KB)) (Fin 1024)) (Fin 1024) =
     Fin (500 * 1024 / 1024 / 1024)"
  by code_simp

lemma budget_2_MB:
  "js_div (js_div (js_mult (Fin 2) (unitMultiplier MB)) (Fin 1024)) (Fin 1024) = Fin 2"
  by code_simp

lemma js_div_PosInf: "js_div PosInf (Fin 1024) = PosInf"
  by (simp add: js_signed_inf_def)

lemma budget_overflow:
  "js_div (js_div (js_mult (Fin (2 ^ 1020)) (unitMultiplier KB)) (Fin 1024)) (Fin 1024) = PosInf"
proof -
  have k: "(1024::real) = 2 ^ 10" by simp
  have "(2::real) ^ 1024 \<le> 2 ^ (1020 + 10)"
    by (rule power_increasing) simp_all
  also have "(2::real) ^ (1020 + 10) = 2 ^ 1020 * 2 ^ 10"
    by (rule power_add)
  also have "\<dots> = \<bar>2 ^ 1020 * 2 ^ 10\<bar>"
    by (rule abs_of_nonneg [symmetric]) (rule mult_nonneg_nonneg; rule zero_le_power; simp)
  finally have "(2::real) ^ 1024 \<le> \<bar>2 ^ 1020 * 2 ^ 10\<bar>" .
  from toDouble_overflow [OF this]
  have "toDouble (2 ^ 1020 * 2 ^ 10) = (if (2::real) ^ 1020 * 2 ^ 10 < 0 then NegInf else PosInf)" .
  moreover have "\<not> (2::real) ^ 1020 * 2 ^ 10 < 0"
    unfolding not_less by (rule mult_nonneg_nonneg; rule zero_le_power; simp)
  ultimately have "toDouble (2 ^ 1020 * 2 ^ 10) = PosInf"
    by (simp only: if_False)
  then have "js_mult (Fin (2 ^ 1020)) (Fin 1024) = PosInf"
    unfolding js_mult.simps k .
  then show ?thesis
    by (simp only: unitMultiplier_def SizeUnit.simps if_False js_div_PosInf)
qed


lemma budget_underflow:
  "js_div (js_div (js_mult (Fin (1 / 2 ^ 1074)) (unitMultiplier KB)) (Fin 1024)) (Fin 1024) = Fin 0"
proof -
  have p: "(2::real) ^ 1074 = 2 ^ 1064 * 1024"
  proof -
    have "(2::real) ^ (1064 + 10) = 2 ^ 1064 * 2 ^ 10" by (rule power_add)
    then show ?thesis by simp
  qed
  have m: "1 / (2::real) ^ 1074 * 1024 = of_int 1 / 2 ^ 1064"
    unfolding p by simp
  have d1: "toDouble (of_int 1 / 2 ^ 1064) = Fin (of_int 1 / 2 ^ 1064)"
    by (rule toDouble_dyadic) simp_all
  have q1: "of_int 1 / (2::real) ^ 1064 / 1024 = of_int 1 / 2 ^ 1074"
    unfolding p by simp
  have d2: "toDouble (of_int 1 / 2 ^ 1074) = Fin (of_int 1 / 2 ^ 1074)"
    by (rule toDouble_dyadic) simp_all
  have u: "toDouble (of_int 1 / 2 ^ 1074 / 1024) = Fin 0"
  proof (rule toDouble_underflow)
    have "\<bar>of_int 1 / (2::real) ^ 1074 / 1024\<bar> * 2 ^ 1074 = 1 / 1024"
      by simp
    then show "\<bar>of_int 1 / (2::real) ^ 1074 / 1024\<bar> * 2 ^ 1074 < 1 / 2" by simp
  qed
  have z: "(1024::real) \<noteq> 0" by simp
  have s0: "js_mult (Fin (1 / 2 ^ 1074)) (Fin 1024) = Fin (of_int 1 / 2 ^ 1064)"
    unfolding js_mult.simps m d1 ..
  have s1: "js_div (Fin (of_int 1 / 2 ^ 1064)) (Fin 1024) = Fin (of_int 1 / 2 ^ 1074)"
    unfolding js_div.simps using z by (simp only: if_False q1 d2)
  have s2: "js_div (Fin (of_int 1 / 2 ^ 1074)) (Fin 1024) = Fin 0"
    unfolding js_div.simps using z by (simp only: if_False u)
  have um: "unitMultiplier KB = Fin 1024" by (simp add: unitMultiplier_def)
  show ?thesis
    unfolding um s0 s1 s2 ..
qed

text \<open>
  Claim C7, as amended. For every job in the list, \<open>runCompressionForId\<close> calls
  \<open>imageCompression\<close> once, with the job's original file and the \<open>maxSizeMB\<close> that the
  doubles give for the target size times \<open>1024\<close> (unit \<open>KB\<close>) or \<open>1024 * 1024\<close> (unit
  \<open>MB\<close>), divided by \<open>1024\<close> twice. A target size \<open>NaN\<close> gives \<open>NaN\<close>. For a finite
  target size \<open>v\<close> whose product with the multiplier is below \<open>2 ^ 1024\<close> and whose
  quotient \<open>v * multiplier / (1024 * 1024)\<close> is a double, \<open>maxSizeMB\<close> is exactly \<open>m\<close>
  megabytes with \<open>m * 1024 * 1024 = v * 1024\<close> bytes for \<open>KB\<close> and
  \<open>v * 1024 * 1024\<close> bytes for \<open>MB\<close>.
\<close>

theorem runCompressionForId_budget:
  assumes "find_file i (imageFilesState w) = Some f"
  shows "\<exists>r. pending (runCompressionForId i w) = pending w @ [r] \<and>
           run_id r = i \<and> run_file r = originalFile f \<and> maxWidthOrHeight r = 1920 \<and>
           maxSizeMB r =
             js_div (js_div (js_mult (targetSize f) (unitMultiplier (targetUnit f)))
               (Fin 1024)) (Fin 1024) \<and>
           (targetSize f = NaN \<longrightarrow> maxSizeMB r = NaN) \<and>
           (\<forall>v. targetSize f = Fin v \<and>
                isDouble (v * (case targetUnit f of KB \<Rightarrow> 1024 | MB \<Rightarrow> 1024 * 1024)
                            / (1024 * 1024)) \<and>
                \<bar>v\<bar> * (case targetUnit f of KB \<Rightarrow> 1024 | MB \<Rightarrow> 1024 * 1024) < 2 ^ 1024 \<longrightarrow>
                (\<exists>m. maxSizeMB r = Fin m \<and>
                     m * (1024 * 1024) =
                       v * (case targetUnit f of KB \<Rightarrow> 1024 | MB \<Rightarrow> 1024 * 1024)))"
proof -
  define k :: real where "k = (case targetUnit f of KB \<Rightarrow> 1024 | MB \<Rightarrow> 1024 * 1024)"
  define B where "B = js_div (js_div (js_mult (targetSize f) (unitMultiplier (targetUnit f)))
               (Fin 1024)) (Fin 1024)"
  define r where "r = \<lparr>run_id = i, run_file = originalFile f, maxSizeMB = B,
      maxWidthOrHeight = 1920\<rparr>"
  have um: "unitMultiplier (targetUnit f) = Fin k"
    unfolding k_def by (rule unitMultiplier_Fin)
  have p: "pending (runCompressionForId i w) = pending w @ [r]"
    by (simp add: runCompressionForId_found [OF assms] compressToTargetSize_sel(1) [OF assms]
          r_def B_def)
  have nan: "targetSize f = NaN \<Longrightarrow> B = NaN"
    by (simp add: B_def)
  have fin: "\<exists>m. B = Fin m \<and> m * (1024 * 1024) = v * k"
    if v: "targetSize f = Fin v" and d: "isDouble (v * k / (1024 * 1024))"
      and b: "\<bar>v\<bar> * k < 2 ^ 1024" for v
  proof -
    define m where "m = v * k / (1024 * 1024)"
    have k0: "0 \<le> k" by (simp add: k_def split: SizeUnit.splits)
    have vk: "v * k = m * 2 ^ 20" by (simp add: m_def)
    have "\<bar>m\<bar> * 2 ^ 20 = \<bar>v * k\<bar>"
      unfolding vk by (simp add: abs_mult)
    also have "\<dots> = \<bar>v\<bar> * k" using k0 by (simp add: abs_mult)
    finally have bm: "\<bar>m\<bar> * 2 ^ 20 < 2 ^ 1024" using b by simp
    have dm: "isDouble m" using d by (simp only: m_def)
    have "B = js_div (js_div (toDouble (m * 2 ^ 20)) (Fin 1024)) (Fin 1024)"
      unfolding B_def v um js_mult.simps vk ..
    also have "\<dots> = Fin m" by (rule budget_exact [OF dm bm])
    finally have "B = Fin m" .
    moreover have "m * (1024 * 1024) = v * k" by (simp add: m_def)
    ultimately show ?thesis by blast
  qed
  have sel: "run_id r = i" "run_file r = originalFile f" "maxWidthOrHeight r = 1920"
    "maxSizeMB r = B"
    by (simp_all add: r_def)
  show ?thesis
    unfolding k_def [symmetric] B_def [symmetric]
    using p sel nan fin by (intro exI [of _ r]) (simp only: simp_thms, blast)
qed

theorem runCompressionForId_budget_witness:
  "find_file 0 (imageFilesState doneWorld) = Some doneJob \<and>
   isDouble (500 * 1024 / (1024 * 1024)) \<and>
   \<bar>500\<bar> * 1024 < (2::real) ^ 1024 \<and>
   (\<exists>m. pending (runCompressionForId 0 doneWorld) =
          [\<lparr>run_id = 0, run_file = 10, maxSizeMB = Fin m, maxWidthOrHeight = 1920\<rparr>] \<and>
        m * (1024 * 1024) = 500 * 1024)"
proof -
  have f: "find_file 0 (imageFilesState doneWorld) = Some doneJob"
    by (simp add: doneWorld_def doneJob_def)
  have "toDouble (of_int 125 / 2 ^ 8) = Fin (of_int 125 / 2 ^ 8)"
    by (rule toDouble_dyadic) simp_all
  then have d: "isDouble (500 * 1024 / (1024 * 1024))"
    by (simp add: isDouble_def)
  have "(512000::real) < 2 ^ 19" by simp
  also have "(2::real) ^ 19 \<le> 2 ^ 1024" by (rule power_increasing) simp_all
  finally have b: "\<bar>500\<bar> * 1024 < (2::real) ^ 1024" by simp
  from runCompressionForId_budget [OF f] obtain r
    where r: "pending (runCompressionForId 0 doneWorld) = pending doneWorld @ [r]"
      "run_id r = 0" "run_file r = originalFile doneJob" "maxWidthOrHeight r = 1920"
      and inr: "\<forall>v. targetSize doneJob = Fin v \<and>
                isDouble (v * (case targetUnit doneJob of KB \<Rightarrow> 1024 | MB \<Rightarrow> 1024 * 1024)
                            / (1024 * 1024)) \<and>
                \<bar>v\<bar> * (case targetUnit doneJob of KB \<Rightarrow> 1024 | MB \<Rightarrow> 1024 * 1024) < 2 ^ 1024 \<longrightarrow>
                (\<exists>m. maxSizeMB r = Fin m \<and>
                     m * (1024 * 1024) =
                       v * (case targetUnit doneJob of KB \<Rightarrow> 1024 | MB \<Rightarrow> 1024 * 1024))"
    by blast
  have ts: "targetSize doneJob = Fin 500" "targetUnit doneJob = KB"
    "originalFile doneJob = 10" "pending doneWorld = []"
    by (simp_all add: doneJob_def doneWorld_def)
  from inr [rule_format, of 500] d b obtain m
    where m: "maxSizeMB r = Fin m" "m * (1024 * 1024) = 500 * 1024"
    unfolding ts by auto
  have "r = \<lparr>run_id = 0, run_file = 10, maxSizeMB = Fin m, maxWidthOrHeight = 1920\<rparr>"
    using r(2,3,4) m(1) ts(3) by (cases r) simp
  with r(1) ts(4) m(2) have "\<exists>m. pending (runCompressionForId 0 doneWorld) =
          [\<lparr>run_id = 0, run_file = 10, maxSizeMB = Fin m, maxWidthOrHeight = 1920\<rparr>] \<and>
        m * (1024 * 1024) = 500 * 1024"
    by auto
  with f d b show ?thesis by blast
qed

section \<open>Resetting a job\<close>

lemma spread_reset:
  "spread f (no_updates\<lparr>u_status := Some Compressing\<rparr>) = f\<lparr>status := Compressing\<rparr>"
  "spread f (no_updates\<lparr>u_status := Some Error\<rparr>) = f\<lparr>status := Error\<rparr>"
  "spread f (no_updates\<lparr>u_compressedFile := Some None, u_compressedUrl := Some None,
      u_targetSize := Some n, u_targetUnit := Some u\<rparr>) =
     f\<lparr>compressedFile := None, compressedUrl := None, targetSize := n, targetUnit := u\<rparr>"
  "spread f (no_updates\<lparr>u_targetSize := Some n, u_targetUnit := Some u\<rparr>) =
     f\<lparr>targetSize := n, targetUnit := u\<rparr>"
  "spread f (no_updates\<lparr>u_targetSize := Some n, u_targetUnit := Some u, u_status := Some Compressing\<rparr>) =
     f\<lparr>targetSize := n, targetUnit := u, status := Compressing\<rparr>"
  "spread f (no_updates\<lparr>u_status := Some Done, u_compressedFile := Some (Some c),
     u_compressedUrl := Some (Some x)\<rparr>) =
     f\<lparr>status := Done, compressedFile := Some c, compressedUrl := Some x\<rparr>"
  by (simp_all add: spread_def no_updates_def)

text \<open>
  Claim C10. \<open>handleReset\<close> for an id that is not in the list returns the state as it
  was. For a job \<open>f\<close> in the list it revokes the compressed URL of \<open>f\<close> when there is
  one, creates no URL, replaces \<open>f\<close> in its place by \<open>f\<close> with no compressed file, no
  compressed URL, the target \<open>500 KB\<close> and the status compressing, and calls
  \<open>imageCompression\<close> once with the budget of \<open>500 KB\<close>.
\<close>

theorem handleReset_effect:
  "(find_file i (imageFilesState w) = None \<longrightarrow> handleReset i w = w) \<and>
   (\<forall>f. find_file i (imageFilesState w) = Some f \<longrightarrow>
      revoked (handleReset i w) =
        revoked w @ (case compressedUrl f of None \<Rightarrow> [] | Some u \<Rightarrow> [u]) \<and>
      created (handleReset i w) = created w \<and>
      nextId (handleReset i w) = nextId w \<and>
      (\<exists>k<length (imageFilesState w). imageFilesState w ! k = f \<and>
         imageFilesState (handleReset i w) =
           (imageFilesState w)[k := f\<lparr>compressedFile := None, compressedUrl := None,
              targetSize := Fin 500, targetUnit := KB, status := Compressing\<rparr>]) \<and>
      find_file i (imageFilesState (handleReset i w)) =
        Some (f\<lparr>compressedFile := None, compressedUrl := None,
                targetSize := Fin 500, targetUnit := KB, status := Compressing\<rparr>) \<and>
      pending (handleReset i w) = pending w @
        [\<lparr>run_id = i, run_file = originalFile f, maxSizeMB = Fin (500 * 1024 / 1024 / 1024),
          maxWidthOrHeight = 1920\<rparr>])"
proof (intro conjI allI impI)
  assume "find_file i (imageFilesState w) = None"
  then show "handleReset i w = w" by (simp add: handleReset_def)
next
  fix f assume f: "find_file i (imageFilesState w) = Some f"
  define U where "U = no_updates\<lparr>u_compressedFile := Some None, u_compressedUrl := Some None,
      u_targetSize := Some (Fin 500), u_targetUnit := Some KB\<rparr>"
  define w1 where "w1 = (case compressedUrl f of None \<Rightarrow> w | Some u \<Rightarrow> revokeObjectURL u w)"
  define w2 where "w2 = w1\<lparr>imageFilesState := updateFileState i U (imageFilesState w1)\<rparr>"
  define g where "g = f\<lparr>compressedFile := None, compressedUrl := None,
      targetSize := Fin 500, targetUnit := KB\<rparr>"
  have hr: "handleReset i w = runCompressionForId i w2"
    using f by (simp add: handleReset_def w2_def w1_def U_def Let_def)
  have w1: "imageFilesState w1 = imageFilesState w" "created w1 = created w"
    "pending w1 = pending w" "nextId w1 = nextId w"
    "revoked w1 = revoked w @ (case compressedUrl f of None \<Rightarrow> [] | Some u \<Rightarrow> [u])"
    by (simp_all add: w1_def revokeObjectURL_def split: option.splits)
  have Uid: "u_fileId U = None" by (simp add: U_def)
  have sp: "spread f U = g" by (simp add: U_def g_def spread_reset)
  have f2: "find_file i (imageFilesState w2) = Some g"
    by (simp add: w2_def w1 find_file_updateFileState [OF Uid] f sp)
  have rc: "handleReset i w = compressToTargetSize i
      (js_mult (targetSize g) (unitMultiplier (targetUnit g))) False w2"
    unfolding hr by (rule runCompressionForId_found [OF f2])
  note cs = compressToTargetSize_sel [OF f2, of "js_mult (targetSize g) (unitMultiplier (targetUnit g))" False,
      folded rc]
  show "revoked (handleReset i w) =
        revoked w @ (case compressedUrl f of None \<Rightarrow> [] | Some u \<Rightarrow> [u])"
    using cs(4) by (simp add: w2_def w1)
  show "created (handleReset i w) = created w"
    using cs(3) by (simp add: w2_def w1)
  show "nextId (handleReset i w) = nextId w"
    using cs(5) by (simp add: w2_def w1)
  have st: "imageFilesState (handleReset i w) =
      updateFileState i (no_updates\<lparr>u_status := Some Compressing\<rparr>)
        (updateFileState i U (imageFilesState w))"
    using cs(2) by (simp add: w2_def w1)
  from updateFileState_found [OF f, of U] obtain k where k: "k < length (imageFilesState w)"
    "imageFilesState w ! k = f" "\<forall>j<k. fileId (imageFilesState w ! j) \<noteq> i"
    "updateFileState i U (imageFilesState w) = (imageFilesState w)[k := g]"
    unfolding sp by blast
  have f2': "find_file i ((imageFilesState w)[k := g]) = Some g"
    using f2 by (simp add: w2_def w1 k(4))
  from updateFileState_found [OF f2', of "no_updates\<lparr>u_status := Some Compressing\<rparr>"]
  obtain k' where k': "k' < length (imageFilesState w)"
    "(imageFilesState w)[k := g] ! k' = g" "\<forall>j<k'. fileId ((imageFilesState w)[k := g] ! j) \<noteq> i"
    "updateFileState i (no_updates\<lparr>u_status := Some Compressing\<rparr>) ((imageFilesState w)[k := g]) =
       (imageFilesState w)[k := g, k' := g\<lparr>status := Compressing\<rparr>]"
    by (auto simp: spread_reset)
  have gi: "fileId g = i" using find_file_Some_fileId [OF f2] by simp
  have "k' = k"
  proof (rule ccontr)
    assume ne: "k' \<noteq> k"
    show False
    proof (cases "k' < k")
      case True
      with k(3) have "fileId (imageFilesState w ! k') \<noteq> i" by simp
      moreover have "(imageFilesState w)[k := g] ! k' = imageFilesState w ! k'"
        using ne by simp
      ultimately show False using k'(2) gi by simp
    next
      case False
      with ne have "k < k'" by simp
      with k'(3) have "fileId ((imageFilesState w)[k := g] ! k) \<noteq> i" by simp
      then show False using k(1) gi by simp
    qed
  qed
  then have fin: "imageFilesState (handleReset i w) =
      (imageFilesState w)[k := g\<lparr>status := Compressing\<rparr>]"
    using st k(4) k'(4) by simp
  show "\<exists>k<length (imageFilesState w). imageFilesState w ! k = f \<and>
         imageFilesState (handleReset i w) =
           (imageFilesState w)[k := f\<lparr>compressedFile := None, compressedUrl := None,
              targetSize := Fin 500, targetUnit := KB, status := Compressing\<rparr>]"
    using k(1,2) fin by (intro exI [of _ k]) (simp add: g_def)
  show "find_file i (imageFilesState (handleReset i w)) =
        Some (f\<lparr>compressedFile := None, compressedUrl := None,
                targetSize := Fin 500, targetUnit := KB, status := Compressing\<rparr>)"
    unfolding st using f
    by (simp add: find_file_updateFileState Uid sp spread_reset g_def)
  show "pending (handleReset i w) = pending w @
        [\<lparr>run_id = i, run_file = originalFile f, maxSizeMB = Fin (500 * 1024 / 1024 / 1024),
          maxWidthOrHeight = 1920\<rparr>]"
    using cs(1) by (simp add: w2_def w1 g_def budget_500_KB)
qed


theorem handleReset_witness:
  "revoked (handleReset 0 doneWorld) = [1] \<and>
   created (handleReset 0 doneWorld) = [0, 1] \<and>
   find_file 0 (imageFilesState (handleReset 0 doneWorld)) =
     Some (doneJob\<lparr>compressedFile := None, compressedUrl := None,
             targetSize := Fin 500, targetUnit := KB, status := Compressing\<rparr>) \<and>
   pending (handleReset 0 doneWorld) =
     [\<lparr>run_id = 0, run_file = 10, maxSizeMB = Fin (125 / 256), maxWidthOrHeight = 1920\<rparr>] \<and>
   handleReset 5 doneWorld = doneWorld"
  using handleReset_effect [of 0 doneWorld] handleReset_effect [of 5 doneWorld]
  by (simp add: doneWorld_def doneJob_def)

section \<open>A compression that fails\<close>

lemma updateFileState_status_frame:
  assumes "k < length fs"
  shows "updateFileState i (no_updates\<lparr>u_status := Some s\<rparr>) fs ! k =
           (if fileId (fs ! k) = i \<and> (\<forall>j<k. fileId (fs ! j) \<noteq> i) then (fs ! k)\<lparr>status := s\<rparr> else fs ! k)"
  using assms
proof (induction fs arbitrary: k)
  case Nil
  then show ?case by simp
next
  case (Cons g fs)
  show ?case
  proof (cases k)
    case 0
    then show ?thesis by (simp add: spread_def no_updates_def)
  next
    case (Suc k')
    with Cons.prems have "k' < length fs" by simp
    from Cons.IH [OF this] show ?thesis
      using Suc by (auto simp: All_less_Suc2)
  qed
qed


lemma dropAt_last [simp]: "dropAt (length xs) (xs @ [x]) = xs"
  by (simp add: dropAt_def)

lemma complete_last:
  "pending w = p @ [r] \<Longrightarrow> complete (length p) outcome w = settle r outcome (w\<lparr>pending := p\<rparr>)"
  by (simp add: complete_def)

lemma handleTargetSizeApply_found:
  assumes "find_file i (imageFilesState w) = Some f"
  shows "pending (handleTargetSizeApply i n u w) = pending w @
           [\<lparr>run_id = i, run_file = originalFile f,
             maxSizeMB = js_div (js_div (js_mult n (unitMultiplier u)) (Fin 1024)) (Fin 1024),
             maxWidthOrHeight = 1920\<rparr>]"
    and "imageFilesState (handleTargetSizeApply i n u w) =
           updateFileState i (no_updates\<lparr>u_status := Some Compressing\<rparr>)
             (updateFileState i (no_updates\<lparr>u_targetSize := Some n, u_targetUnit := Some u\<rparr>)
                (imageFilesState w))"
    and "created (handleTargetSizeApply i n u w) = created w"
    and "revoked (handleTargetSizeApply i n u w) = revoked w"
    and "nextId (handleTargetSizeApply i n u w) = nextId w"
proof -
  define w0 where "w0 = w\<lparr>imageFilesState :=
      updateFileState i (no_updates\<lparr>u_targetSize := Some n, u_targetUnit := Some u\<rparr>)
        (imageFilesState w)\<rparr>"
  have f0: "find_file i (imageFilesState w0) = Some (f\<lparr>targetSize := n, targetUnit := u\<rparr>)"
    by (simp add: w0_def find_file_updateFileState assms spread_reset)
  have h: "handleTargetSizeApply i n u w =
      compressToTargetSize i (js_mult n (unitMultiplier u)) False w0"
    using runCompressionForId_found [OF f0] by (simp add: handleTargetSizeApply_def w0_def)
  note cs = compressToTargetSize_sel [OF f0, of "js_mult n (unitMultiplier u)" False, folded h]
  show "pending (handleTargetSizeApply i n u w) = pending w @
           [\<lparr>run_id = i, run_file = originalFile f,
             maxSizeMB = js_div (js_div (js_mult n (unitMultiplier u)) (Fin 1024)) (Fin 1024),
             maxWidthOrHeight = 1920\<rparr>]"
    using cs(1) by (simp add: w0_def)
  show "imageFilesState (handleTargetSizeApply i n u w) =
           updateFileState i (no_updates\<lparr>u_status := Some Compressing\<rparr>)
             (updateFileState i (no_updates\<lparr>u_targetSize := Some n, u_targetUnit := Some u\<rparr>)
                (imageFilesState w))"
    using cs(2) by (simp add: w0_def)
  show "created (handleTargetSizeApply i n u w) = created w"
    using cs(3) by (simp add: w0_def)
  show "revoked (handleTargetSizeApply i n u w) = revoked w"
    using cs(4) by (simp add: w0_def)
  show "nextId (handleTargetSizeApply i n u w) = nextId w"
    using cs(5) by (simp add: w0_def)
qed

lemma rerun_then_failure:
  assumes "find_file i (imageFilesState w) = Some f"
  shows "find_file i (imageFilesState
            (complete (length (pending w)) None (handleTargetSizeApply i n u w))) =
           Some (f\<lparr>targetSize := n, targetUnit := u, status := Error\<rparr>) \<and>
         created (complete (length (pending w)) None (handleTargetSizeApply i n u w)) = created w \<and>
         revoked (complete (length (pending w)) None (handleTargetSizeApply i n u w)) = revoked w"
proof -
  note h = handleTargetSizeApply_found [OF assms, of n u]
  show ?thesis
    unfolding complete_last [OF h(1)]
    by (simp add: settle_sel h find_file_updateFileState assms spread_reset)
qed

text \<open>
  Claim C3. When the promise of a run is rejected, the continuation creates and revokes no
  URL and changes nothing in the list but the status of the first job with the run's id,
  which becomes error: every job keeps its compressed file and its compressed URL, and any
  other job is unchanged. In particular, when the \<open>Apply\<close> button re-runs a job and that
  run fails, the job has its compressed file and URL of before the run, its new target and
  the status error, and no URL has been revoked.
\<close>

theorem settle_failure_keeps_result:
  "created (settle r None w) = created w \<and>
   revoked (settle r None w) = revoked w \<and>
   length (imageFilesState (settle r None w)) = length (imageFilesState w) \<and>
   (\<forall>k<length (imageFilesState w).
      compressedFile (imageFilesState (settle r None w) ! k) =
        compressedFile (imageFilesState w ! k) \<and>
      compressedUrl (imageFilesState (settle r None w) ! k) =
        compressedUrl (imageFilesState w ! k) \<and>
      imageFilesState (settle r None w) ! k =
        (if fileId (imageFilesState w ! k) = run_id r \<and>
            (\<forall>j<k. fileId (imageFilesState w ! j) \<noteq> run_id r)
         then (imageFilesState w ! k)\<lparr>status := Error\<rparr>
         else imageFilesState w ! k)) \<and>
   (\<forall>i f n u. find_file i (imageFilesState w) = Some f \<longrightarrow>
      find_file i (imageFilesState
         (complete (length (pending w)) None (handleTargetSizeApply i n u w))) =
        Some (f\<lparr>targetSize := n, targetUnit := u, status := Error\<rparr>) \<and>
      created (complete (length (pending w)) None (handleTargetSizeApply i n u w)) = created w \<and>
      revoked (complete (length (pending w)) None (handleTargetSizeApply i n u w)) = revoked w)"
proof (intro conjI allI impI)
  fix k assume k: "k < length (imageFilesState w)"
  note fr = updateFileState_status_frame [OF k, of "run_id r" Error]
  show "imageFilesState (settle r None w) ! k =
        (if fileId (imageFilesState w ! k) = run_id r \<and>
            (\<forall>j<k. fileId (imageFilesState w ! j) \<noteq> run_id r)
         then (imageFilesState w ! k)\<lparr>status := Error\<rparr>
         else imageFilesState w ! k)"
    using fr by (simp add: settle_sel)
  show "compressedFile (imageFilesState (settle r None w) ! k) =
        compressedFile (imageFilesState w ! k)"
    using fr by (simp add: settle_sel)
  show "compressedUrl (imageFilesState (settle r None w) ! k) =
        compressedUrl (imageFilesState w ! k)"
    using fr by (simp add: settle_sel)
qed (simp_all add: settle_sel rerun_then_failure)

theorem settle_failure_witness:
  "created (settle staleRun None doneWorld) = [0, 1] \<and>
   revoked (settle staleRun None doneWorld) = [] \<and>
   length (imageFilesState (settle staleRun None doneWorld)) = 1 \<and>
   imageFilesState (settle staleRun None doneWorld) ! 0 = doneJob\<lparr>status := Error\<rparr> \<and>
   find_file 0 (imageFilesState (complete 0 None (handleTargetSizeApply 0 (Fin 2) MB doneWorld))) =
     Some (doneJob\<lparr>targetSize := Fin 2, targetUnit := MB, status := Error\<rparr>) \<and>
   compressedFile (doneJob\<lparr>targetSize := Fin 2, targetUnit := MB, status := Error\<rparr>) = Some 20 \<and>
   compressedUrl (doneJob\<lparr>targetSize := Fin 2, targetUnit := MB, status := Error\<rparr>) = Some 1 \<and>
   revoked (complete 0 None (handleTargetSizeApply 0 (Fin 2) MB doneWorld)) = []"
proof -
  note t = settle_failure_keeps_result [of staleRun doneWorld]
  have st: "imageFilesState doneWorld = [doneJob]" "pending doneWorld = []"
    "created doneWorld = [0, 1]" "revoked doneWorld = []"
    by (simp_all add: doneWorld_def)
  have f: "find_file 0 (imageFilesState doneWorld) = Some doneJob"
    by (simp add: st doneJob_def)
  from t have 1: "created (settle staleRun None doneWorld) = [0, 1]"
    and 2: "revoked (settle staleRun None doneWorld) = []"
    and 3: "length (imageFilesState (settle staleRun None doneWorld)) = 1"
    by (simp_all add: st)
  from t have "\<forall>k<length (imageFilesState doneWorld).
      imageFilesState (settle staleRun None doneWorld) ! k =
        (if fileId (imageFilesState doneWorld ! k) = run_id staleRun \<and>
            (\<forall>j<k. fileId (imageFilesState doneWorld ! j) \<noteq> run_id staleRun)
         then (imageFilesState doneWorld ! k)\<lparr>status := Error\<rparr>
         else imageFilesState doneWorld ! k)"
    by blast
  then have 4: "imageFilesState (settle staleRun None doneWorld) ! 0 = doneJob\<lparr>status := Error\<rparr>"
    by (simp add: st doneJob_def staleRun_def)
  from t have "\<forall>i f n u. find_file i (imageFilesState doneWorld) = Some f \<longrightarrow>
      find_file i (imageFilesState
         (complete (length (pending doneWorld)) None (handleTargetSizeApply i n u doneWorld))) =
        Some (f\<lparr>targetSize := n, targetUnit := u, status := Error\<rparr>) \<and>
      created (complete (length (pending doneWorld)) None (handleTargetSizeApply i n u doneWorld)) = created doneWorld \<and>
      revoked (complete (length (pending doneWorld)) None (handleTargetSizeApply i n u doneWorld)) = revoked doneWorld"
    by blast
  from this [rule_format, OF f, of "Fin 2" MB]
  have 5: "find_file 0 (imageFilesState (complete 0 None (handleTargetSizeApply 0 (Fin 2) MB doneWorld))) =
     Some (doneJob\<lparr>targetSize := Fin 2, targetUnit := MB, status := Error\<rparr>)"
    and 6: "revoked (complete 0 None (handleTargetSizeApply 0 (Fin 2) MB doneWorld)) = []"
    by (simp_all add: st)
  have 7: "compressedFile (doneJob\<lparr>targetSize := Fin 2, targetUnit := MB, status := Error\<rparr>) = Some 20"
    "compressedUrl (doneJob\<lparr>targetSize := Fin 2, targetUnit := MB, status := Error\<rparr>) = Some 1"
    by (simp_all add: doneJob_def)
  from 1 2 3 4 5 6 7 show ?thesis by blast
qed

section \<open>Budgets where the doubles end\<close>

text \<open>
  The claim as stated fails where the doubles end. With the target \<open>2 ^ 1020\<close> \<open>KB\<close>
  (about \<open>1.12e307\<close>), which the \<open>Apply\<close> button of a finished job accepts, the product
  with \<open>1024\<close> overflows and the budget handed over is \<open>Infinity\<close>; with the target
  \<open>2 ^ - 1074\<close> \<open>KB\<close> (about \<open>5e-324\<close>) the second division is rounded and the budget
  is \<open>0\<close>.
\<close>

theorem budget_overflow_counterexample:
  "enabled doneWorld (Apply 0 (Fin (2 ^ 1020)) KB) \<and>
   pending (handleTargetSizeApply 0 (Fin (2 ^ 1020)) KB doneWorld) =
     [\<lparr>run_id = 0, run_file = 10, maxSizeMB = PosInf, maxWidthOrHeight = 1920\<rparr>] \<and>
   pending (handleTargetSizeApply 0 (Fin (1 / 2 ^ 1074)) KB doneWorld) =
     [\<lparr>run_id = 0, run_file = 10, maxSizeMB = Fin 0, maxWidthOrHeight = 1920\<rparr>]"
proof -
  have f: "find_file 0 (imageFilesState doneWorld) = Some doneJob"
    by (simp add: doneWorld_def doneJob_def)
  have e: "enabled doneWorld (Apply 0 (Fin (2 ^ 1020)) KB)"
    unfolding enabled.simps
    by (simp add: doneWorld_def doneJob_def cardButtonsEnabled_def createCardElement_def)
  have st: "pending doneWorld = []" "originalFile doneJob = 10"
    by (simp_all add: doneWorld_def doneJob_def)
  have a: "pending (handleTargetSizeApply 0 (Fin (2 ^ 1020)) KB doneWorld) =
     [\<lparr>run_id = 0, run_file = 10, maxSizeMB = PosInf, maxWidthOrHeight = 1920\<rparr>]"
    unfolding handleTargetSizeApply_found(1) [OF f] budget_overflow st by (rule append_Nil)
  have b: "pending (handleTargetSizeApply 0 (Fin (1 / 2 ^ 1074)) KB doneWorld) =
     [\<lparr>run_id = 0, run_file = 10, maxSizeMB = Fin 0, maxWidthOrHeight = 1920\<rparr>]"
    unfolding handleTargetSizeApply_found(1) [OF f] budget_underflow st by (rule append_Nil)
  from e a b show ?thesis by blast
qed

section \<open>Apply to all\<close>

lemma find_file_distinct:
  "distinct (map fileId fs) \<Longrightarrow> f \<in> set fs \<Longrightarrow> find_file (fileId f) fs = Some f"
  by (induction fs) (auto simp: rev_image_eqI)

lemma find_file_map:
  "(\<And>f. fileId (g f) = fileId f) \<Longrightarrow> find_file i (map g fs) = map_option g (find_file i fs)"
  by (induction fs) auto

lemma updateFileState_distinct:
  "distinct (map fileId fs) \<Longrightarrow>
   updateFileState i u fs = map (\<lambda>f. if fileId f = i then spread f u else f) fs"
proof (induction fs)
  case Nil
  then show ?case by simp
next
  case (Cons g fs)
  show ?case
  proof (cases "fileId g = i")
    case True
    with Cons.prems have "i \<notin> fileId ` set fs" by simp
    then have "\<forall>f \<in> set fs. fileId f \<noteq> i" by blast
    then have "map (\<lambda>f. if fileId f = i then spread f u else f) fs = fs"
      by (intro map_idI) simp
    with True show ?thesis by simp
  next
    case False
    with Cons show ?thesis by simp
  qed
qed

lemma foldl_update_frame:
  "pending (foldl (\<lambda>w' f. w'\<lparr>imageFilesState := updateFileState (fileId f) U (imageFilesState w')\<rparr>) w sel) = pending w \<and>
   created (foldl (\<lambda>w' f. w'\<lparr>imageFilesState := updateFileState (fileId f) U (imageFilesState w')\<rparr>) w sel) = created w \<and>
   revoked (foldl (\<lambda>w' f. w'\<lparr>imageFilesState := updateFileState (fileId f) U (imageFilesState w')\<rparr>) w sel) = revoked w \<and>
   nextId (foldl (\<lambda>w' f. w'\<lparr>imageFilesState := updateFileState (fileId f) U (imageFilesState w')\<rparr>) w sel) = nextId w \<and>
   view (foldl (\<lambda>w' f. w'\<lparr>imageFilesState := updateFileState (fileId f) U (imageFilesState w')\<rparr>) w sel) = view w"
  by (induction sel arbitrary: w) simp_all

lemma foldl_update_store:
  assumes "u_fileId U = None" and "\<And>f. spread (spread f U) U = spread f U"
  shows "distinct (map fileId (imageFilesState w)) \<Longrightarrow>
   imageFilesState (foldl (\<lambda>w' f. w'\<lparr>imageFilesState := updateFileState (fileId f) U (imageFilesState w')\<rparr>) w sel) =
     map (\<lambda>f. if fileId f \<in> fileId ` set sel then spread f U else f) (imageFilesState w)"
proof (induction sel arbitrary: w)
  case Nil
  then show ?case by simp
next
  case (Cons g sel)
  let ?w = "w\<lparr>imageFilesState := updateFileState (fileId g) U (imageFilesState w)\<rparr>"
  have d: "distinct (map fileId (imageFilesState ?w))"
    using Cons.prems assms(1) by simp
  have s: "imageFilesState ?w = map (\<lambda>f. if fileId f = fileId g then spread f U else f) (imageFilesState w)"
    using updateFileState_distinct [OF Cons.prems] by simp
  show ?case
    using Cons.IH [OF d] unfolding s
    by (simp add: assms o_def)
qed


lemma fileId_in_filter:
  assumes "distinct (map fileId fs)" and "f \<in> set fs"
  shows "fileId f \<in> fileId ` set (filter P fs) \<longleftrightarrow> P f"
proof
  assume "fileId f \<in> fileId ` set (filter P fs)"
  then obtain g where g: "g \<in> set fs" "P g" "fileId g = fileId f" by auto
  from assms(1) have "inj_on fileId (set fs)" by (simp add: distinct_map)
  with g assms(2) have "g = f" by (auto dest: inj_onD)
  with g show "P f" by simp
next
  assume "P f"
  with assms(2) show "fileId f \<in> fileId ` set (filter P fs)" by auto
qed

lemma applyToAllUpdate_sel:
  assumes "distinct (map fileId (imageFilesState w))"
  shows "imageFilesState (applyToAllUpdate n u (filesToUpdate (imageFilesState w)) w) =
           map (\<lambda>f. if status f \<noteq> Error
                     then f\<lparr>targetSize := n, targetUnit := u, status := Compressing\<rparr> else f)
             (imageFilesState w)"
    and "pending (applyToAllUpdate n u sel w) = pending w"
    and "created (applyToAllUpdate n u sel w) = created w"
    and "revoked (applyToAllUpdate n u sel w) = revoked w"
    and "nextId (applyToAllUpdate n u sel w) = nextId w"
    and "view (applyToAllUpdate n u sel w) =
           renderPage (imageFilesState (applyToAllUpdate n u sel w)) (view w)"
proof -
  define U where "U = no_updates\<lparr>u_targetSize := Some n, u_targetUnit := Some u,
     u_status := Some Compressing\<rparr>"
  have Uid: "u_fileId U = None" by (simp add: U_def)
  have idem: "spread (spread f U) U = spread f U" for f
    by (simp add: U_def spread_def no_updates_def)
  have key: "fileId f \<in> fileId ` set (filesToUpdate (imageFilesState w)) \<longleftrightarrow> status f \<noteq> Error"
    if "f \<in> set (imageFilesState w)" for f
    unfolding filesToUpdate_def by (rule fileId_in_filter [OF assms that])
  have "imageFilesState (applyToAllUpdate n u (filesToUpdate (imageFilesState w)) w) =
     map (\<lambda>f. if fileId f \<in> fileId ` set (filesToUpdate (imageFilesState w)) then spread f U else f)
       (imageFilesState w)"
    using foldl_update_store [OF Uid idem assms]
    by (simp add: applyToAllUpdate_def U_def)
  also have "\<dots> = map (\<lambda>f. if status f \<noteq> Error
                     then f\<lparr>targetSize := n, targetUnit := u, status := Compressing\<rparr> else f)
             (imageFilesState w)"
    by (rule map_cong) (simp_all add: key U_def spread_reset)
  finally show "imageFilesState (applyToAllUpdate n u (filesToUpdate (imageFilesState w)) w) =
           map (\<lambda>f. if status f \<noteq> Error
                     then f\<lparr>targetSize := n, targetUnit := u, status := Compressing\<rparr> else f)
             (imageFilesState w)" .
qed (simp_all add: applyToAllUpdate_def foldl_update_frame)

text \<open>
  Claim C5. Let the size pass the validation and let the ids of the list be distinct.
  \<open>handleApplyToAll\<close> selects the jobs whose status is not error. Its first loop, with the
  \<open>render\<close> after it, leaves every selected job compressing with the new size and unit and
  every job in error as it was, starts no compression, and renders the page from that
  list. Only then the second loop starts one compression per selected job, in the order of
  the list and with the budget of the new size and unit, without changing the list again.
\<close>

theorem handleApplyToAll_batch:
  assumes "\<not> js_isNaN n" and "\<not> js_le n (Fin 0)"
    and "distinct (map fileId (imageFilesState w))"
  shows "filesToUpdate (imageFilesState w) = filter (\<lambda>f. status f \<noteq> Error) (imageFilesState w) \<and>
     imageFilesState (applyToAllUpdate n u (filesToUpdate (imageFilesState w)) w) =
       map (\<lambda>f. if status f \<noteq> Error
                 then f\<lparr>targetSize := n, targetUnit := u, status := Compressing\<rparr> else f)
         (imageFilesState w) \<and>
     pending (applyToAllUpdate n u (filesToUpdate (imageFilesState w)) w) = pending w \<and>
     view (applyToAllUpdate n u (filesToUpdate (imageFilesState w)) w) =
       renderPage (imageFilesState (applyToAllUpdate n u (filesToUpdate (imageFilesState w)) w)) (view w) \<and>
     handleApplyToAll n u w =
       (if filesToUpdate (imageFilesState w) = [] then (NothingToUpdate, w)
        else (Started, applyToAllStart n u (filesToUpdate (imageFilesState w))
                (applyToAllUpdate n u (filesToUpdate (imageFilesState w)) w))) \<and>
     imageFilesState (snd (handleApplyToAll n u w)) =
       map (\<lambda>f. if status f \<noteq> Error
                 then f\<lparr>targetSize := n, targetUnit := u, status := Compressing\<rparr> else f)
         (imageFilesState w) \<and>
     pending (snd (handleApplyToAll n u w)) = pending w @
       map (\<lambda>f. \<lparr>run_id = fileId f, run_file = originalFile f,
                 maxSizeMB = js_div (js_div (js_mult n (unitMultiplier u)) (Fin 1024)) (Fin 1024),
                 maxWidthOrHeight = 1920\<rparr>)
         (filesToUpdate (imageFilesState w)) \<and>
     created (snd (handleApplyToAll n u w)) = created w \<and>
     revoked (snd (handleApplyToAll n u w)) = revoked w"
proof -
  define fs where "fs = imageFilesState w"
  define sel where "sel = filesToUpdate fs"
  define mid where "mid = applyToAllUpdate n u sel w"
  define g :: "ImageFileState \<Rightarrow> ImageFileState" where "g = (\<lambda>f. if status f \<noteq> Error
                 then f\<lparr>targetSize := n, targetUnit := u, status := Compressing\<rparr> else f)"
  note d = assms(3) [folded fs_def]
  have au: "imageFilesState mid = map g fs"
    by (simp add: mid_def sel_def fs_def g_def applyToAllUpdate_sel(1) [OF assms(3)])
  have af: "pending mid = pending w" "created mid = created w" "revoked mid = revoked w"
    "nextId mid = nextId w" "view mid = renderPage (imageFilesState mid) (view w)"
    by (simp_all add: mid_def applyToAllUpdate_sel(2-6) [OF assms(3)])
  have gid: "fileId (g f) = fileId f" "originalFile (g f) = originalFile f" for f
    by (simp_all add: g_def)
  have fnd: "find_file (fileId f) (imageFilesState mid) = Some (g f)" if "f \<in> set sel" for f
  proof -
    from that have "f \<in> set fs" by (simp add: sel_def filesToUpdate_def)
    then show ?thesis
      by (simp add: au find_file_map gid find_file_distinct [OF d])
  qed
  then have ex: "\<forall>f \<in> set sel. find_file (fileId f) (imageFilesState mid) \<noteq> None"
    by simp
  note st = pending_applyToAllStart [OF ex, of n u]
  have h: "handleApplyToAll n u w =
       (if sel = [] then (NothingToUpdate, w) else (Started, applyToAllStart n u sel mid))"
    using assms(1,2) by (simp add: handleApplyToAll_def Let_def sel_def fs_def mid_def)
  have sel_empty: "map g fs = fs" if "sel = []"
  proof (rule map_idI)
    fix f assume "f \<in> set fs"
    with that have "status f = Error"
      by (auto simp: sel_def filesToUpdate_def filter_empty_conv)
    then show "g f = f" by (simp add: g_def)
  qed
  have s1: "imageFilesState (snd (handleApplyToAll n u w)) = map g fs"
    using st sel_empty by (simp add: h au fs_def)
  have runs: "map (\<lambda>f. \<lparr>run_id = fileId f,
               run_file = originalFile (the (find_file (fileId f) (imageFilesState mid))),
               maxSizeMB = js_div (js_div (js_mult n (unitMultiplier u)) (Fin 1024)) (Fin 1024),
               maxWidthOrHeight = 1920\<rparr>) sel =
       map (\<lambda>f. \<lparr>run_id = fileId f, run_file = originalFile f,
                 maxSizeMB = js_div (js_div (js_mult n (unitMultiplier u)) (Fin 1024)) (Fin 1024),
                 maxWidthOrHeight = 1920\<rparr>) sel"
    by (rule map_cong) (simp_all add: fnd gid)
  have s2: "pending (snd (handleApplyToAll n u w)) = pending w @
       map (\<lambda>f. \<lparr>run_id = fileId f, run_file = originalFile f,
                 maxSizeMB = js_div (js_div (js_mult n (unitMultiplier u)) (Fin 1024)) (Fin 1024),
                 maxWidthOrHeight = 1920\<rparr>) sel"
    using st runs by (simp add: h af)
  have s3: "created (snd (handleApplyToAll n u w)) = created w"
    "revoked (snd (handleApplyToAll n u w)) = revoked w"
    using st by (simp_all add: h af)
  have s0: "sel = filter (\<lambda>f. status f \<noteq> Error) fs"
    by (simp add: sel_def filesToUpdate_def)
  show ?thesis
    using s0 au af(1) af(5) h s1 s2 s3
    unfolding g_def mid_def sel_def fs_def by blast
qed

theorem handleApplyToAll_batch_witness:
  "map status (imageFilesState
      (applyToAllUpdate (Fin 2) MB (filesToUpdate (imageFilesState mixedWorld)) mixedWorld)) =
     [Compressing, Error, Compressing] \<and>
   map targetSize (imageFilesState
      (applyToAllUpdate (Fin 2) MB (filesToUpdate (imageFilesState mixedWorld)) mixedWorld)) =
     [Fin 2, Fin 500, Fin 2] \<and>
   map targetUnit (imageFilesState
      (applyToAllUpdate (Fin 2) MB (filesToUpdate (imageFilesState mixedWorld)) mixedWorld)) =
     [MB, KB, MB] \<and>
   map run_id (pending
      (applyToAllUpdate (Fin 2) MB (filesToUpdate (imageFilesState mixedWorld)) mixedWorld)) = [2] \<and>
   map run_id (pending (snd (handleApplyToAll (Fin 2) MB mixedWorld))) = [2, 0, 2] \<and>
   map maxSizeMB (pending (snd (handleApplyToAll (Fin 2) MB mixedWorld))) =
     [Fin (125 / 256), Fin 2, Fin 2]"
proof -
  have v: "\<not> js_isNaN (Fin 2)" "\<not> js_le (Fin 2) (Fin 0)"
    by simp_all
  have d: "distinct (map fileId (imageFilesState mixedWorld))"
    by (simp add: mixedWorld_def mixedJobs_def doneJob_def)
  note t = handleApplyToAll_batch [OF v d, of MB]
  have sel: "filesToUpdate (imageFilesState mixedWorld) =
      [doneJob, \<lparr>fileId = 2, originalFile = 12, originalUrl = 3, compressedFile = None,
           compressedUrl = None, status = Compressing, targetSize = Fin 500, targetUnit = KB\<rparr>]"
    by (simp add: filesToUpdate_def mixedWorld_def mixedJobs_def doneJob_def)
  from t have 1: "imageFilesState
      (applyToAllUpdate (Fin 2) MB (filesToUpdate (imageFilesState mixedWorld)) mixedWorld) =
       map (\<lambda>f. if status f \<noteq> Error
                 then f\<lparr>targetSize := Fin 2, targetUnit := MB, status := Compressing\<rparr> else f)
         (imageFilesState mixedWorld)"
    by blast
  from t have 2: "pending
      (applyToAllUpdate (Fin 2) MB (filesToUpdate (imageFilesState mixedWorld)) mixedWorld) =
        pending mixedWorld"
    by blast
  from t have 3: "pending (snd (handleApplyToAll (Fin 2) MB mixedWorld)) = pending mixedWorld @
       map (\<lambda>f. \<lparr>run_id = fileId f, run_file = originalFile f,
                 maxSizeMB = js_div (js_div (js_mult (Fin 2) (unitMultiplier MB)) (Fin 1024)) (Fin 1024),
                 maxWidthOrHeight = 1920\<rparr>)
         (filesToUpdate (imageFilesState mixedWorld))"
    by blast
  show ?thesis
    unfolding 1 2 3
    by (simp add: sel budget_2_MB) (simp add: mixedWorld_def mixedJobs_def doneJob_def)
qed

section \<open>Object URLs that are never revoked\<close>

lemma settle_absent:
  "find_file (run_id r) (imageFilesState w) = None \<Longrightarrow>
   imageFilesState (settle r outcome w) = imageFilesState w"
  by (simp add: settle_sel updateFileState_absent split: option.splits)

text \<open>
  Claim C1 fails on the code. A file is added and compressed (URLs \<open>0\<close> and \<open>1\<close>), the
  \<open>Apply\<close> button re-runs the job and the second compression succeeds: the job now holds
  the URL \<open>2\<close> and nothing has been revoked. Removing the job revokes \<open>0\<close> and \<open>2\<close>;
  the URL \<open>1\<close> is never revoked.
\<close>

theorem rerun_leaks_compressedUrl:
  "map_option obs (exec [Submit [10], Complete 0 (Some 20), Apply 0 (Fin 300) KB,
       Complete 0 (Some 30)] initialWorld) =
     Some ([(0, Done, 0, Some 2)], [0, 1, 2], [], []) \<and>
   map_option obs (exec [Submit [10], Complete 0 (Some 20), Apply 0 (Fin 300) KB,
       Complete 0 (Some 30), Remove 0] initialWorld) =
     Some ([], [0, 1, 2], [0, 2], [])"
  by code_simp

text \<open>
  Claim C4 fails on the code. A file is added and removed while its compression is
  outstanding; when the promise is fulfilled the list stays empty, but the continuation
  has created the URL \<open>1\<close>, which no job holds and nothing revokes.
\<close>

theorem stale_completion_leaks_url:
  "map_option obs (exec [Submit [10], Remove 0] initialWorld) = Some ([], [0], [0], [0]) \<and>
   map_option obs (exec [Submit [10], Remove 0, Complete 0 (Some 20)] initialWorld) =
     Some ([], [0, 1], [0], [])"
  by code_simp

section \<open>Invariants of the page\<close>

lemma renderPage_indep: "renderPage fs p = renderPage fs q"
  by (cases p, cases q) (simp add: renderPage_def updateGlobalUI_def Let_def)

lemma renderPage_Nil_initial: "renderPage [] initialPage = initialPage"
  by (simp add: renderPage_def updateGlobalUI_def initialPage_def anyCompressing_def
        anyDone_def readyToDownloadCount_def)

lemma updateFileState_same:
  "find_file i fs = Some f \<Longrightarrow> spread f u = f \<Longrightarrow> updateFileState i u fs = fs"
  by (induction fs) (auto split: if_splits)

lemma status_update_same: "status f = s \<Longrightarrow> f\<lparr>status := s\<rparr> = f"
  by (cases f) simp

lemma newFiles_sel:
  "newFiles files w = (js, w') \<Longrightarrow>
     distinct (map fileId js) \<and>
     (\<forall>j \<in> set js. nextId w \<le> fileId j \<and> fileId j < nextId w + length files \<and>
        status j = Compressing \<and> compressedFile j = None \<and> compressedUrl j = None \<and>
        targetSize j = Fin 500 \<and> targetUnit j = KB) \<and>
     map originalFile js = files \<and>
     nextId w' = nextId w + length files \<and>
     imageFilesState w' = imageFilesState w \<and> pending w' = pending w \<and>
     revoked w' = revoked w \<and> view w' = view w"
proof (induction files arbitrary: w js w')
  case Nil
  then show ?case by simp
next
  case (Cons f files)
  let ?w1 = "snd (createObjectURL (w\<lparr>nextId := nextId w + 1\<rparr>))"
  obtain js2 w2 where r: "newFiles files ?w1 = (js2, w2)"
    by (cases "newFiles files ?w1")
  have w1: "nextId ?w1 = Suc (nextId w)"
    "imageFilesState ?w1 = imageFilesState w" "pending ?w1 = pending w"
    "revoked ?w1 = revoked w" "view ?w1 = view w"
    by (simp_all add: createObjectURL_def)
  from Cons.prems r have js: "js = \<lparr>fileId = nextId w, originalFile = f,
        originalUrl = length (created w),
        compressedFile = None, compressedUrl = None, status = Compressing,
        targetSize = Fin 500, targetUnit = KB\<rparr> # js2" and w': "w' = w2"
    by (simp_all add: createObjectURL_def split: prod.splits)
  note ih = Cons.IH [OF r, unfolded w1]
  show ?case
    unfolding js w' using ih by auto
qed


lemma foldl_runCompressionForId:
  assumes "\<forall>j \<in> set js. \<exists>f. find_file (fileId j) (imageFilesState w) = Some f \<and> status f = Compressing"
  shows "imageFilesState (foldl (\<lambda>w' f. runCompressionForId (fileId f) w') w js) = imageFilesState w \<and>
         map run_id (pending (foldl (\<lambda>w' f. runCompressionForId (fileId f) w') w js)) =
           map run_id (pending w) @ map fileId js \<and>
         nextId (foldl (\<lambda>w' f. runCompressionForId (fileId f) w') w js) = nextId w \<and>
         created (foldl (\<lambda>w' f. runCompressionForId (fileId f) w') w js) = created w \<and>
         revoked (foldl (\<lambda>w' f. runCompressionForId (fileId f) w') w js) = revoked w \<and>
         view (foldl (\<lambda>w' f. runCompressionForId (fileId f) w') w js) =
           (if js = [] then view w else renderPage (imageFilesState w) (view w))"
  using assms
proof (induction js arbitrary: w)
  case Nil
  then show ?case by simp
next
  case (Cons j js)
  from Cons.prems obtain f where f: "find_file (fileId j) (imageFilesState w) = Some f"
    "status f = Compressing" by auto
  let ?b = "js_mult (targetSize f) (unitMultiplier (targetUnit f))"
  let ?w = "runCompressionForId (fileId j) w"
  have rw: "?w = compressToTargetSize (fileId j) ?b False w"
    by (rule runCompressionForId_found [OF f(1)])
  have same: "updateFileState (fileId j) (no_updates\<lparr>u_status := Some Compressing\<rparr>)
      (imageFilesState w) = imageFilesState w"
    by (rule updateFileState_same [OF f(1)]) (simp add: spread_reset status_update_same f(2))
  note cs = compressToTargetSize_sel [OF f(1), of ?b False, folded rw]
  have st: "imageFilesState ?w = imageFilesState w"
    using cs(2) same by simp
  have vw: "view ?w = renderPage (imageFilesState w) (view w)"
    using cs(6) same by simp
  have pre: "\<forall>j \<in> set js. \<exists>f. find_file (fileId j) (imageFilesState ?w) = Some f \<and> status f = Compressing"
    using Cons.prems st by simp
  note ih = Cons.IH [OF pre, unfolded st]
  have vv: "renderPage (imageFilesState w) (view ?w) = renderPage (imageFilesState w) (view w)"
    by (rule renderPage_indep)
  show ?case
    using ih cs(1,3,4,5) vw vv by simp
qed

lemma render_view_initial: "view (render w) = renderPage (imageFilesState w) initialPage"
  by (simp add: renderPage_indep [of _ "view w" initialPage])

lemma processFiles_sel:
  assumes "storeInv w" and "newFiles files w = (js, w1)"
  shows "imageFilesState (processFiles files w) = imageFilesState w @ js"
    and "map run_id (pending (processFiles files w)) = map run_id (pending w) @ map fileId js"
    and "nextId (processFiles files w) = nextId w + length files"
    and "revoked (processFiles files w) = revoked w"
    and "view (processFiles files w) = renderPage (imageFilesState w @ js) initialPage"
proof -
  note nf = newFiles_sel [OF assms(2)]
  let ?w2 = "render (w1\<lparr>imageFilesState := imageFilesState w1 @ js\<rparr>)"
  have st2: "imageFilesState ?w2 = imageFilesState w @ js" "pending ?w2 = pending w"
    "nextId ?w2 = nextId w + length files" "revoked ?w2 = revoked w"
    "view ?w2 = renderPage (imageFilesState w @ js) initialPage"
    using nf by (simp_all add: renderPage_indep [of _ "view w" initialPage])
  have lo: "\<forall>f \<in> set (imageFilesState w). fileId f < nextId w"
    using assms(1) by (simp add: storeInv_def list_all_iff)
  have hi: "\<forall>j \<in> set js. nextId w \<le> fileId j"
    using nf by blast
  have "fileId ` set (imageFilesState w) \<inter> fileId ` set js = {}"
  proof (rule ccontr)
    assume "fileId ` set (imageFilesState w) \<inter> fileId ` set js \<noteq> {}"
    then obtain a b where "a \<in> set (imageFilesState w)" "b \<in> set js" "fileId a = fileId b"
      by (auto simp: image_iff)
    with lo hi show False by (metis not_less)
  qed
  moreover have "distinct (map fileId (imageFilesState w))"
    using assms(1) by (simp add: storeInv_def)
  moreover have "distinct (map fileId js)" using nf by blast
  ultimately have d: "distinct (map fileId (imageFilesState w @ js))"
    by simp
  have pre: "\<forall>j \<in> set js. \<exists>f. find_file (fileId j) (imageFilesState ?w2) = Some f \<and> status f = Compressing"
  proof
    fix j assume j: "j \<in> set js"
    then have "find_file (fileId j) (imageFilesState w @ js) = Some j"
      by (intro find_file_distinct [OF d]) simp
    moreover have "status j = Compressing" using nf j by simp
    ultimately show "\<exists>f. find_file (fileId j) (imageFilesState ?w2) = Some f \<and> status f = Compressing"
      unfolding st2 by blast
  qed
  have pf: "processFiles files w = foldl (\<lambda>w' f. runCompressionForId (fileId f) w') ?w2 js"
    using assms(2) by (simp add: processFiles_def)
  note fr = foldl_runCompressionForId [OF pre, folded pf, unfolded st2]
  show "imageFilesState (processFiles files w) = imageFilesState w @ js"
    and "map run_id (pending (processFiles files w)) = map run_id (pending w) @ map fileId js"
    and "nextId (processFiles files w) = nextId w + length files"
    and "revoked (processFiles files w) = revoked w"
    using fr by simp_all
  show "view (processFiles files w) = renderPage (imageFilesState w @ js) initialPage"
    using fr by (simp add: renderPage_indep [of _ "renderPage (imageFilesState w @ js) initialPage" initialPage])
qed


lemma updateFileState_twice_distinct:
  assumes "distinct (map fileId fs)" and "u_fileId u1 = None"
  shows "updateFileState i u2 (updateFileState i u1 fs) =
           map (\<lambda>f. if fileId f = i then spread (spread f u1) u2 else f) fs"
proof -
  have a: "updateFileState i u1 fs = map (\<lambda>f. if fileId f = i then spread f u1 else f) fs"
    by (rule updateFileState_distinct [OF assms(1)])
  have d: "distinct (map fileId (updateFileState i u1 fs))"
    using assms by simp
  have b: "updateFileState i u2 (updateFileState i u1 fs) =
      map (\<lambda>f. if fileId f = i then spread f u2 else f) (updateFileState i u1 fs)"
    by (rule updateFileState_distinct [OF d])
  have c: "map (\<lambda>f. if fileId f = i then spread f u2 else f)
             (map (\<lambda>f. if fileId f = i then spread f u1 else f) fs) =
           map (\<lambda>f. if fileId f = i then spread (spread f u1) u2 else f) fs"
    by (simp add: assms(2))
  show ?thesis
    unfolding b unfolding a by (rule c)
qed

lemma handleTargetSizeApply_absent:
  "find_file i (imageFilesState w) = None \<Longrightarrow> handleTargetSizeApply i n u w = w"
  by (simp add: handleTargetSizeApply_def updateFileState_absent runCompressionForId_absent)

lemma handleTargetSizeApply_effect:
  assumes "distinct (map fileId (imageFilesState w))"
    and "find_file i (imageFilesState w) = Some f"
  shows "imageFilesState (handleTargetSizeApply i n u w) =
           map (\<lambda>g. if fileId g = i
                     then g\<lparr>targetSize := n, targetUnit := u, status := Compressing\<rparr> else g)
             (imageFilesState w)"
    and "map run_id (pending (handleTargetSizeApply i n u w)) = map run_id (pending w) @ [i]"
    and "view (handleTargetSizeApply i n u w) =
           renderPage (imageFilesState (handleTargetSizeApply i n u w)) initialPage"
proof -
  define w0 where "w0 = w\<lparr>imageFilesState :=
      updateFileState i (no_updates\<lparr>u_targetSize := Some n, u_targetUnit := Some u\<rparr>)
        (imageFilesState w)\<rparr>"
  have f0: "find_file i (imageFilesState w0) = Some (f\<lparr>targetSize := n, targetUnit := u\<rparr>)"
    by (simp add: w0_def find_file_updateFileState assms(2) spread_reset)
  have h: "handleTargetSizeApply i n u w =
      compressToTargetSize i (js_mult n (unitMultiplier u)) False w0"
    using runCompressionForId_found [OF f0] by (simp add: handleTargetSizeApply_def w0_def)
  note cs = compressToTargetSize_sel [OF f0, of "js_mult n (unitMultiplier u)" False, folded h]
  have st: "imageFilesState (handleTargetSizeApply i n u w) =
      updateFileState i (no_updates\<lparr>u_status := Some Compressing\<rparr>) (imageFilesState w0)"
    using cs(2) by simp
  show "imageFilesState (handleTargetSizeApply i n u w) =
           map (\<lambda>g. if fileId g = i
                     then g\<lparr>targetSize := n, targetUnit := u, status := Compressing\<rparr> else g)
             (imageFilesState w)"
    unfolding st
    by (simp add: w0_def updateFileState_twice_distinct [OF assms(1)] spread_reset)
  show "map run_id (pending (handleTargetSizeApply i n u w)) = map run_id (pending w) @ [i]"
    using cs(1) by (simp add: w0_def)
  show "view (handleTargetSizeApply i n u w) =
           renderPage (imageFilesState (handleTargetSizeApply i n u w)) initialPage"
    unfolding st using cs(6) by (simp add: renderPage_indep [of _ "view w0" initialPage] del: render_fields)
qed

lemma handleReset_absent:
  "find_file i (imageFilesState w) = None \<Longrightarrow> handleReset i w = w"
  by (simp add: handleReset_def)

lemma handleReset_found:
  assumes "distinct (map fileId (imageFilesState w))"
    and "find_file i (imageFilesState w) = Some f"
  shows "imageFilesState (handleReset i w) =
           map (\<lambda>g. if fileId g = i
                     then g\<lparr>compressedFile := None, compressedUrl := None,
                            targetSize := Fin 500, targetUnit := KB, status := Compressing\<rparr>
                     else g)
             (imageFilesState w)"
    and "map run_id (pending (handleReset i w)) = map run_id (pending w) @ [i]"
    and "nextId (handleReset i w) = nextId w"
    and "view (handleReset i w) = renderPage (imageFilesState (handleReset i w)) initialPage"
proof -
  define U where "U = no_updates\<lparr>u_compressedFile := Some None, u_compressedUrl := Some None,
      u_targetSize := Some (Fin 500), u_targetUnit := Some KB\<rparr>"
  define w1 where "w1 = (case compressedUrl f of None \<Rightarrow> w | Some u \<Rightarrow> revokeObjectURL u w)"
  define w2 where "w2 = w1\<lparr>imageFilesState := updateFileState i U (imageFilesState w1)\<rparr>"
  have hr: "handleReset i w = runCompressionForId i w2"
    using assms(2) by (simp add: handleReset_def w2_def w1_def U_def Let_def)
  have w1: "imageFilesState w1 = imageFilesState w" "pending w1 = pending w" "nextId w1 = nextId w"
    by (simp_all add: w1_def revokeObjectURL_def split: option.splits)
  have Uid: "u_fileId U = None" by (simp add: U_def)
  have f2: "find_file i (imageFilesState w2) = Some (spread f U)"
    by (simp add: w2_def w1 find_file_updateFileState [OF Uid] assms(2))
  let ?b = "js_mult (targetSize (spread f U)) (unitMultiplier (targetUnit (spread f U)))"
  have rc: "handleReset i w = compressToTargetSize i ?b False w2"
    unfolding hr by (rule runCompressionForId_found [OF f2])
  note cs = compressToTargetSize_sel [OF f2, of ?b False, folded rc]
  have st: "imageFilesState (handleReset i w) =
      updateFileState i (no_updates\<lparr>u_status := Some Compressing\<rparr>)
        (updateFileState i U (imageFilesState w))"
    using cs(2) by (simp add: w2_def w1)
  have sp: "spread (spread g U) (no_updates\<lparr>u_status := Some Compressing\<rparr>) =
      g\<lparr>compressedFile := None, compressedUrl := None,
                            targetSize := Fin 500, targetUnit := KB, status := Compressing\<rparr>" for g
    by (simp add: U_def spread_reset)
  show "imageFilesState (handleReset i w) =
           map (\<lambda>g. if fileId g = i
                     then g\<lparr>compressedFile := None, compressedUrl := None,
                            targetSize := Fin 500, targetUnit := KB, status := Compressing\<rparr>
                     else g)
             (imageFilesState w)"
    unfolding st updateFileState_twice_distinct [OF assms(1) Uid] sp ..
  show "map run_id (pending (handleReset i w)) = map run_id (pending w) @ [i]"
    using cs(1) by (simp add: w2_def w1)
  show "nextId (handleReset i w) = nextId w"
    using cs(5) by (simp add: w2_def w1)
  show "view (handleReset i w) = renderPage (imageFilesState (handleReset i w)) initialPage"
    using cs(2,6) by (simp add: renderPage_indep [of _ "view w2" initialPage])
qed

lemma handleRemoveImage_sel:
  "imageFilesState (handleRemoveImage i w) = filter (\<lambda>f. fileId f \<noteq> i) (imageFilesState w)"
  "pending (handleRemoveImage i w) = pending w"
  "nextId (handleRemoveImage i w) = nextId w"
  "created (handleRemoveImage i w) = created w"
  by (simp_all add: handleRemoveImage_def Let_def revokeBoth_def revokeObjectURL_def
        split: option.splits)

lemma handleRemoveImage_view:
  "view (handleRemoveImage i w) = renderPage (imageFilesState (handleRemoveImage i w)) initialPage"
  unfolding handleRemoveImage_def Let_def
  by (simp only: render_view_initial render_fields)

lemma handleClearAll_sel:
  "imageFilesState (handleClearAll w) = []"
  "pending (handleClearAll w) = pending w"
  "nextId (handleClearAll w) = 0"
  by (simp_all add: handleClearAll_def frame_foldl_revokeBoth)

lemma handleClearAll_view:
  "view (handleClearAll w) = renderPage (imageFilesState (handleClearAll w)) initialPage"
  unfolding handleClearAll_def
  by (simp only: render_view_initial render_fields)

lemma settle_view:
  "view (settle r outcome w) = renderPage (imageFilesState (settle r outcome w)) initialPage"
  unfolding settle_sel(6) by (rule renderPage_indep)

lemma complete_sel:
  assumes "distinct (map fileId (imageFilesState w))" and "k < length (pending w)"
  shows "imageFilesState (complete k outcome w) =
           map (\<lambda>g. if fileId g = run_id (pending w ! k)
                     then (case outcome of
                             None \<Rightarrow> g\<lparr>status := Error\<rparr>
                           | Some c \<Rightarrow> g\<lparr>status := Done, compressedFile := Some c,
                                        compressedUrl := Some (length (created w))\<rparr>)
                     else g)
             (imageFilesState w)"
    and "pending (complete k outcome w) = dropAt k (pending w)"
    and "nextId (complete k outcome w) = nextId w"
    and "view (complete k outcome w) = renderPage (imageFilesState (complete k outcome w)) initialPage"
proof -
  have c: "complete k outcome w = settle (pending w ! k) outcome (w\<lparr>pending := dropAt k (pending w)\<rparr>)"
    using assms(2) by (simp add: complete_def)
  show "imageFilesState (complete k outcome w) =
           map (\<lambda>g. if fileId g = run_id (pending w ! k)
                     then (case outcome of
                             None \<Rightarrow> g\<lparr>status := Error\<rparr>
                           | Some c \<Rightarrow> g\<lparr>status := Done, compressedFile := Some c,
                                        compressedUrl := Some (length (created w))\<rparr>)
                     else g)
             (imageFilesState w)"
    unfolding c using assms(1)
    by (cases outcome) (simp_all add: settle_sel updateFileState_distinct spread_reset)
  show "pending (complete k outcome w) = dropAt k (pending w)"
    unfolding c by (simp add: settle_sel)
  show "nextId (complete k outcome w) = nextId w"
    unfolding c by (simp add: settle_sel)
  show "view (complete k outcome w) = renderPage (imageFilesState (complete k outcome w)) initialPage"
    unfolding c by (rule settle_view)
qed


lemma handleApplyToAll_effect:
  assumes "distinct (map fileId (imageFilesState w))"
  shows "snd (handleApplyToAll n u w) = w \<or>
     (imageFilesState (snd (handleApplyToAll n u w)) =
        map (\<lambda>f. if status f \<noteq> Error
                  then f\<lparr>targetSize := n, targetUnit := u, status := Compressing\<rparr> else f)
          (imageFilesState w) \<and>
      map run_id (pending (snd (handleApplyToAll n u w))) =
        map run_id (pending w) @ map fileId (filesToUpdate (imageFilesState w)) \<and>
      nextId (snd (handleApplyToAll n u w)) = nextId w \<and>
      view (snd (handleApplyToAll n u w)) =
        renderPage (imageFilesState (snd (handleApplyToAll n u w))) initialPage)"
proof (cases "js_isNaN n \<or> js_le n (Fin 0) \<or> filesToUpdate (imageFilesState w) = []")
  case True
  then have "snd (handleApplyToAll n u w) = w"
    by (auto simp: handleApplyToAll_def Let_def)
  then show ?thesis ..
next
  case False
  define fs where "fs = imageFilesState w"
  define sel where "sel = filesToUpdate fs"
  define mid where "mid = applyToAllUpdate n u sel w"
  define g :: "ImageFileState \<Rightarrow> ImageFileState" where "g = (\<lambda>f. if status f \<noteq> Error
                 then f\<lparr>targetSize := n, targetUnit := u, status := Compressing\<rparr> else f)"
  note d = assms [folded fs_def]
  have au: "imageFilesState mid = map g fs"
    by (simp add: mid_def sel_def fs_def g_def applyToAllUpdate_sel(1) [OF assms])
  have af: "pending mid = pending w" "nextId mid = nextId w"
    "view mid = renderPage (imageFilesState mid) (view w)"
    by (simp_all add: mid_def applyToAllUpdate_sel(2-6) [OF assms])
  have gid: "fileId (g f) = fileId f" for f
    by (simp add: g_def)
  have fnd: "find_file (fileId f) (imageFilesState mid) = Some (g f)" if "f \<in> set sel" for f
  proof -
    from that have "f \<in> set fs" by (simp add: sel_def filesToUpdate_def)
    then show ?thesis
      by (simp add: au find_file_map gid find_file_distinct [OF d])
  qed
  then have ex: "\<forall>f \<in> set sel. find_file (fileId f) (imageFilesState mid) \<noteq> None"
    by simp
  note st = pending_applyToAllStart [OF ex, of n u]
  have h: "snd (handleApplyToAll n u w) = applyToAllStart n u sel mid"
    using False by (simp add: handleApplyToAll_def Let_def sel_def fs_def mid_def)
  have 1: "imageFilesState (snd (handleApplyToAll n u w)) = map g fs"
    unfolding h using st au by simp
  have 2: "map run_id (pending (snd (handleApplyToAll n u w))) =
        map run_id (pending w) @ map fileId sel"
    unfolding h using st af by (simp add: o_def)
  have 3: "nextId (snd (handleApplyToAll n u w)) = nextId w"
    unfolding h using st af by simp
  have "view (snd (handleApplyToAll n u w)) = renderPage (map g fs) (view w)"
    unfolding h using st af au by simp
  also have "\<dots> = renderPage (map g fs) initialPage"
    by (rule renderPage_indep)
  finally have 4: "view (snd (handleApplyToAll n u w)) =
      renderPage (imageFilesState (snd (handleApplyToAll n u w))) initialPage"
    unfolding 1 .
  show ?thesis
    using 1 2 3 4 unfolding g_def sel_def fs_def by blast
qed


lemma storeInv_iff:
  "storeInv w \<longleftrightarrow>
     distinct (map fileId (imageFilesState w)) \<and>
     (\<forall>f \<in> set (imageFilesState w). fileId f < nextId w) \<and>
     (\<forall>f \<in> set (imageFilesState w). status f = Done \<longrightarrow> compressedFile f \<noteq> None) \<and>
     view w = renderPage (imageFilesState w) initialPage"
  by (simp add: storeInv_def list_all_iff)

lemma storeInv_map:
  assumes "storeInv w"
    and "imageFilesState w' = map h (imageFilesState w)"
    and "nextId w' = nextId w"
    and "view w' = renderPage (imageFilesState w') initialPage"
    and "\<And>f. fileId (h f) = fileId f"
    and "\<And>f. f \<in> set (imageFilesState w) \<Longrightarrow> status (h f) = Done \<Longrightarrow> compressedFile (h f) \<noteq> None"
  shows "storeInv w'"
proof -
  have m: "map fileId (map h (imageFilesState w)) = map fileId (imageFilesState w)"
    by (simp add: o_def assms(5))
  show ?thesis
    unfolding storeInv_iff assms(2) m
    using assms(1,3,4,5,6) by (auto simp: storeInv_iff assms(2))
qed

lemma storeInv_initial: "storeInv initialWorld"
  by (simp add: storeInv_def initialWorld_def renderPage_Nil_initial)

lemma storeInv_step:
  assumes "storeInv w"
  shows "storeInv (step e w)"
proof -
  have dn: "status f = Done \<Longrightarrow> f \<in> set (imageFilesState w) \<Longrightarrow> \<exists>y. compressedFile f = Some y"
    for f using assms by (auto simp: storeInv_iff)
  show ?thesis
  proof (cases e)
  case (Submit files)
  obtain js w1 where nf: "newFiles files w = (js, w1)" by (cases "newFiles files w")
  note ps = processFiles_sel [OF assms nf]
  note ns = newFiles_sel [OF nf]
  have lo: "\<forall>f \<in> set (imageFilesState w). fileId f < nextId w"
    using assms by (simp add: storeInv_iff)
  have hi: "\<forall>j \<in> set js. nextId w \<le> fileId j" using ns by blast
  have dj: "fileId ` set (imageFilesState w) \<inter> fileId ` set js = {}"
  proof (rule ccontr)
    assume "fileId ` set (imageFilesState w) \<inter> fileId ` set js \<noteq> {}"
    then obtain a b where "a \<in> set (imageFilesState w)" "b \<in> set js" "fileId a = fileId b"
      by (auto simp: image_iff)
    with lo hi show False by (metis not_less)
  qed
  have d: "distinct (map fileId (imageFilesState w @ js))"
    using assms ns dj by (simp add: storeInv_iff)
  have b: "\<forall>f \<in> set (imageFilesState w @ js). fileId f < nextId w + length files"
    using lo ns by fastforce
  have c: "\<forall>f \<in> set (imageFilesState w @ js). status f = Done \<longrightarrow> compressedFile f \<noteq> None"
    using assms ns by (auto simp: storeInv_iff)
  show ?thesis
    unfolding Submit step.simps storeInv_iff ps using d b c by simp
next
  case (Apply i n u)
  show ?thesis
  proof (cases "find_file i (imageFilesState w)")
    case None
    then show ?thesis using assms by (simp add: Apply handleTargetSizeApply_absent)
  next
    case (Some f)
    have d: "distinct (map fileId (imageFilesState w))" using assms by (simp add: storeInv_iff)
    note ef = handleTargetSizeApply_effect [OF d Some, of n u]
    have nx: "nextId (handleTargetSizeApply i n u w) = nextId w"
      by (rule handleTargetSizeApply_found(5) [OF Some])
    show ?thesis
      unfolding Apply step.simps
      by (rule storeInv_map [OF assms ef(1) nx ef(3)])
         (use dn in \<open>auto split: if_splits\<close>)
  qed
next
  case (Reset i)
  show ?thesis
  proof (cases "find_file i (imageFilesState w)")
    case None
    then show ?thesis using assms by (simp add: Reset handleReset_absent)
  next
    case (Some f)
    have d: "distinct (map fileId (imageFilesState w))" using assms by (simp add: storeInv_iff)
    note ef = handleReset_found [OF d Some]
    show ?thesis
      unfolding Reset step.simps
      by (rule storeInv_map [OF assms ef(1) ef(3) ef(4)])
         (use dn in \<open>auto split: if_splits\<close>)
  qed
next
  case (ApplyToAll n u)
  have d: "distinct (map fileId (imageFilesState w))" using assms by (simp add: storeInv_iff)
  from handleApplyToAll_effect [OF d, of n u]
  show ?thesis
  proof
    assume "snd (handleApplyToAll n u w) = w"
    then show ?thesis using assms by (simp add: ApplyToAll)
  next
    assume ef: "imageFilesState (snd (handleApplyToAll n u w)) =
        map (\<lambda>f. if status f \<noteq> Error
                  then f\<lparr>targetSize := n, targetUnit := u, status := Compressing\<rparr> else f)
          (imageFilesState w) \<and>
      map run_id (pending (snd (handleApplyToAll n u w))) =
        map run_id (pending w) @ map fileId (filesToUpdate (imageFilesState w)) \<and>
      nextId (snd (handleApplyToAll n u w)) = nextId w \<and>
      view (snd (handleApplyToAll n u w)) =
        renderPage (imageFilesState (snd (handleApplyToAll n u w))) initialPage"
    show ?thesis
      unfolding ApplyToAll step.simps
      by (rule storeInv_map [OF assms ef [THEN conjunct1]
            ef [THEN conjunct2, THEN conjunct2, THEN conjunct1]
            ef [THEN conjunct2, THEN conjunct2, THEN conjunct2]])
         (use dn in \<open>auto split: if_splits\<close>)
  qed
next
  case (Remove i)
  show ?thesis
    unfolding Remove step.simps storeInv_iff handleRemoveImage_view [symmetric]
    using assms by (simp add: handleRemoveImage_sel storeInv_iff distinct_map_filter)
next
  case ClearAll
  show ?thesis
    unfolding ClearAll step.simps storeInv_iff handleClearAll_view [symmetric]
    by (simp add: handleClearAll_sel)
next
  case (Complete k outcome)
  show ?thesis
  proof (cases "k < length (pending w)")
    case False
    then show ?thesis using assms by (simp add: Complete complete_def)
  next
    case True
    have d: "distinct (map fileId (imageFilesState w))" using assms by (simp add: storeInv_iff)
    note ef = complete_sel [OF d True, of outcome]
    show ?thesis
      unfolding Complete step.simps
      by (rule storeInv_map [OF assms ef(1) ef(3) ef(4)])
         (use dn in \<open>auto split: if_splits option.splits\<close>)
  qed
qed
qed


lemma runsInv_iff:
  "runsInv w \<longleftrightarrow>
     (\<forall>i \<in> set (map run_id (pending w)). i < nextId w) \<and>
     distinct (map run_id (pending w)) \<and>
     (\<forall>f \<in> set (imageFilesState w).
        fileId f \<in> set (map run_id (pending w)) \<longrightarrow> status f = Compressing)"
  by (auto simp: runsInv_def list_all_iff)

lemma cardButtonsEnabled_renderPage:
  "cardButtonsEnabled (renderPage fs p) i \<longleftrightarrow> (\<exists>f \<in> set fs. fileId f = i \<and> status f = Done)"
proof -
  have "status f \<noteq> Error \<and> status f \<noteq> Compressing \<longleftrightarrow> status f = Done"
    for f :: ImageFileState
    by (cases "status f") simp_all
  then show ?thesis
    by (auto simp: cardButtonsEnabled_def list_ex_iff createCardElement_def Let_def)
qed

lemma map_dropAt: "map f (dropAt k xs) = dropAt k (map f xs)"
  by (simp add: dropAt_def take_map drop_map)

lemma set_dropAt: "set (dropAt k xs) \<subseteq> set xs"
  by (auto simp: dropAt_def dest: in_set_takeD in_set_dropD)

lemma distinct_dropAt:
  assumes "distinct xs" and "k < length xs"
  shows "distinct (dropAt k xs) \<and> xs ! k \<notin> set (dropAt k xs)"
proof -
  have xs: "xs = take k xs @ xs ! k # drop (Suc k) xs"
    using assms(2) by (rule id_take_nth_drop)
  from assms(1) have "distinct (take k xs @ xs ! k # drop (Suc k) xs)"
    using xs by simp
  then show ?thesis by (auto simp: dropAt_def)
qed


lemma runsInv_step:
  assumes s: "storeInv w" and r: "runsInv w" and en: "enabled w e" and idle: "idleClear w e"
  shows "runsInv (step e w)"
proof -
  let ?ids = "set (map run_id (pending w))"
  have d: "distinct (map fileId (imageFilesState w))"
    and lo: "\<And>f. f \<in> set (imageFilesState w) \<Longrightarrow> fileId f < nextId w"
    and vw: "view w = renderPage (imageFilesState w) initialPage"
    using s by (simp_all add: storeInv_iff)
  have r1: "\<And>i. i \<in> ?ids \<Longrightarrow> i < nextId w"
    and r2: "distinct (map run_id (pending w))"
    and r3: "\<And>f. f \<in> set (imageFilesState w) \<Longrightarrow> fileId f \<in> ?ids \<Longrightarrow> status f = Compressing"
    using r unfolding runsInv_iff by blast+
  show ?thesis
  proof (cases e)
    case (Submit files)
    obtain js w1 where nf: "newFiles files w = (js, w1)" by (cases "newFiles files w")
    note ps = processFiles_sel [OF s nf]
    note ns = newFiles_sel [OF nf]
    have hi: "\<And>j. j \<in> set js \<Longrightarrow> nextId w \<le> fileId j \<and> fileId j < nextId w + length files \<and>
        status j = Compressing"
      using ns by blast
    have dj: "distinct (map fileId js)" using ns by blast
    have a: "\<forall>i \<in> set (map run_id (pending w) @ map fileId js). i < nextId w + length files"
      using r1 hi by fastforce
    have "?ids \<inter> set (map fileId js) = {}"
    proof (rule ccontr)
      assume "?ids \<inter> set (map fileId js) \<noteq> {}"
      then obtain i where i: "i \<in> ?ids" "i \<in> set (map fileId js)" by blast
      then obtain j where "j \<in> set js" "i = fileId j" by auto
      with r1 hi i(1) show False by (metis not_less)
    qed
    with r2 dj have b: "distinct (map run_id (pending w) @ map fileId js)" by simp
    have c: "\<forall>f \<in> set (imageFilesState w @ js).
        fileId f \<in> set (map run_id (pending w) @ map fileId js) \<longrightarrow> status f = Compressing"
    proof (intro ballI impI)
      fix f assume f: "f \<in> set (imageFilesState w @ js)"
        and m: "fileId f \<in> set (map run_id (pending w) @ map fileId js)"
      show "status f = Compressing"
      proof (cases "f \<in> set js")
        case True
        then show ?thesis using hi by simp
      next
        case False
        with f have fs: "f \<in> set (imageFilesState w)" by simp
        have "fileId f \<notin> set (map fileId js)"
        proof
          assume "fileId f \<in> set (map fileId js)"
          then obtain j where "j \<in> set js" "fileId j = fileId f" by auto
          with hi lo [OF fs] show False by (metis not_less)
        qed
        with m have "fileId f \<in> ?ids" by simp
        then show ?thesis by (rule r3 [OF fs])
      qed
    qed
    show ?thesis
      unfolding Submit step.simps runsInv_iff ps using a b c by simp
  next
    case (Apply i n u)
    from en have "\<exists>f \<in> set (imageFilesState w). fileId f = i \<and> status f = Done"
      unfolding Apply enabled.simps vw cardButtonsEnabled_renderPage .
    then obtain f where f: "f \<in> set (imageFilesState w)" "fileId f = i" "status f = Done"
      by blast
    have ff: "find_file i (imageFilesState w) = Some f"
      using find_file_distinct [OF d f(1)] f(2) by simp
    have ni: "i \<notin> ?ids"
      using r3 [OF f(1)] f(2,3) by auto
    note ef = handleTargetSizeApply_effect [OF d ff, of n u]
    have nx: "nextId (handleTargetSizeApply i n u w) = nextId w"
      by (rule handleTargetSizeApply_found(5) [OF ff])
    show ?thesis
      unfolding Apply step.simps runsInv_iff ef(1,2) nx
      using r1 r2 r3 ni lo [OF f(1)] f(2) by auto
  next
    case (Reset i)
    from en have "\<exists>f \<in> set (imageFilesState w). fileId f = i \<and> status f = Done"
      unfolding Reset enabled.simps vw cardButtonsEnabled_renderPage .
    then obtain f where f: "f \<in> set (imageFilesState w)" "fileId f = i" "status f = Done"
      by blast
    have ff: "find_file i (imageFilesState w) = Some f"
      using find_file_distinct [OF d f(1)] f(2) by simp
    have ni: "i \<notin> ?ids"
      using r3 [OF f(1)] f(2,3) by auto
    note ef = handleReset_found [OF d ff]
    show ?thesis
      unfolding Reset step.simps runsInv_iff ef(1,2,3)
      using r1 r2 r3 ni lo [OF f(1)] f(2) by auto
  next
    case (ApplyToAll n u)
    from en have nc: "\<not> anyCompressing (imageFilesState w)"
      unfolding ApplyToAll enabled.simps vw by simp
    have free: "fileId f \<notin> ?ids" if "f \<in> set (imageFilesState w)" for f
      using r3 [OF that] nc that by (auto simp: anyCompressing_def list_ex_iff)
    from handleApplyToAll_effect [OF d, of n u]
    show ?thesis
    proof
      assume "snd (handleApplyToAll n u w) = w"
      then show ?thesis using r by (simp add: ApplyToAll)
    next
      assume ef: "imageFilesState (snd (handleApplyToAll n u w)) =
          map (\<lambda>f. if status f \<noteq> Error
                    then f\<lparr>targetSize := n, targetUnit := u, status := Compressing\<rparr> else f)
            (imageFilesState w) \<and>
        map run_id (pending (snd (handleApplyToAll n u w))) =
          map run_id (pending w) @ map fileId (filesToUpdate (imageFilesState w)) \<and>
        nextId (snd (handleApplyToAll n u w)) = nextId w \<and>
        view (snd (handleApplyToAll n u w)) =
          renderPage (imageFilesState (snd (handleApplyToAll n u w))) initialPage"
      let ?sel = "filesToUpdate (imageFilesState w)"
      have sub: "set ?sel \<subseteq> set (imageFilesState w)"
        by (simp add: filesToUpdate_def)
      have a: "\<forall>i \<in> set (map run_id (pending w) @ map fileId ?sel). i < nextId w"
        using r1 lo sub by auto
      have ds: "distinct (map fileId ?sel)"
        using d by (simp add: filesToUpdate_def distinct_map_filter)
      have "?ids \<inter> set (map fileId ?sel) = {}"
      proof (rule ccontr)
        assume "?ids \<inter> set (map fileId ?sel) \<noteq> {}"
        then obtain i where i: "i \<in> ?ids" "i \<in> set (map fileId ?sel)" by blast
        then obtain f where "f \<in> set ?sel" "i = fileId f" by auto
        with sub free i(1) show False by blast
      qed
      with r2 ds have b: "distinct (map run_id (pending w) @ map fileId ?sel)" by simp
      have key: "fileId f \<in> fileId ` set ?sel \<longleftrightarrow> status f \<noteq> Error"
        if "f \<in> set (imageFilesState w)" for f
        unfolding filesToUpdate_def by (rule fileId_in_filter [OF d that])
      have c: "\<forall>f \<in> set (imageFilesState w).
          fileId f \<in> set (map run_id (pending w) @ map fileId ?sel) \<longrightarrow> status f \<noteq> Error"
        using free key by auto
      show ?thesis
        unfolding ApplyToAll step.simps runsInv_iff ef [THEN conjunct1]
          ef [THEN conjunct2, THEN conjunct1] ef [THEN conjunct2, THEN conjunct2, THEN conjunct1]
        using a b c by auto
    qed
  next
    case (Remove i)
    show ?thesis
      unfolding Remove step.simps runsInv_iff handleRemoveImage_sel
      using r1 r2 r3 by auto
  next
    case ClearAll
    with idle have "pending w = []" by (simp add: idleClear_def)
    then show ?thesis
      by (simp add: ClearAll runsInv_iff handleClearAll_sel)
  next
    case (Complete k outcome)
    from en have k: "k < length (pending w)" by (simp add: Complete)
    note ef = complete_sel [OF d k, of outcome]
    have k': "k < length (map run_id (pending w))" using k by simp
    from distinct_dropAt [OF r2 k'] have dd: "distinct (dropAt k (map run_id (pending w)))"
      and nk: "run_id (pending w ! k) \<notin> set (dropAt k (map run_id (pending w)))"
      using k by simp_all
    have sub: "set (dropAt k (map run_id (pending w))) \<subseteq> ?ids"
      by (rule set_dropAt)
    show ?thesis
      unfolding Complete step.simps runsInv_iff ef(1,2,3) map_dropAt
      using dd nk sub r1 r3 by (cases outcome) auto
  qed
qed


lemma exec_storeInv:
  "exec es w = Some w' \<Longrightarrow> storeInv w \<Longrightarrow> storeInv w'"
proof (induction es arbitrary: w)
  case Nil
  then show ?case by simp
next
  case (Cons e es)
  from Cons.prems(1) have "exec es (step e w) = Some w'"
    by (simp split: if_splits)
  then show ?case
    by (rule Cons.IH) (rule storeInv_step [OF Cons.prems(2)])
qed

lemma execIdle_exec: "execIdle es w = Some w' \<Longrightarrow> exec es w = Some w'"
  by (induction es arbitrary: w) (simp_all split: if_splits)

lemma execIdle_runsInv:
  "execIdle es w = Some w' \<Longrightarrow> storeInv w \<Longrightarrow> runsInv w \<Longrightarrow> runsInv w'"
proof (induction es arbitrary: w)
  case Nil
  then show ?case by simp
next
  case (Cons e es)
  from Cons.prems(1) have en: "enabled w e" "idleClear w e"
    and rest: "execIdle es (step e w) = Some w'"
    by (simp_all split: if_splits)
  show ?case
    by (rule Cons.IH [OF rest storeInv_step [OF Cons.prems(2)]
          runsInv_step [OF Cons.prems(2,3) en]])
qed

lemma runsInv_initial: "runsInv initialWorld"
  by (simp add: runsInv_def initialWorld_def)

section \<open>Re-running a job that is compressing\<close>

text \<open>
  What the rendered buttons do prevent. In every state that a sequence of enabled events
  reaches from the initial page, the \<open>Apply\<close> and \<open>Reset\<close> buttons of a card can be
  clicked only when the job of that id is done, and \<open>Apply to all\<close> only when no job is
  compressing. And as long as \<open>Clear all\<close> is clicked only while no promise is
  outstanding, no two outstanding runs have the same id, and every job with an outstanding
  run is compressing.
\<close>

theorem rerun_disabled_while_running:
  "(exec es initialWorld = Some w \<longrightarrow>
      (enabled w (Apply i n u) \<longrightarrow>
         (\<exists>f. find_file i (imageFilesState w) = Some f \<and> status f = Done)) \<and>
      (enabled w (Reset i) \<longrightarrow>
         (\<exists>f. find_file i (imageFilesState w) = Some f \<and> status f = Done)) \<and>
      (enabled w (ApplyToAll n u) \<longrightarrow>
         (\<forall>f \<in> set (imageFilesState w). status f \<noteq> Compressing))) \<and>
   (execIdle es initialWorld = Some w \<longrightarrow>
      distinct (map run_id (pending w)) \<and>
      (\<forall>f \<in> set (imageFilesState w).
         fileId f \<in> set (map run_id (pending w)) \<longrightarrow> status f = Compressing))"
proof (intro conjI impI)
  assume ex: "exec es initialWorld = Some w"
  have s: "storeInv w" by (rule exec_storeInv [OF ex storeInv_initial])
  then have d: "distinct (map fileId (imageFilesState w))"
    and vw: "view w = renderPage (imageFilesState w) initialPage"
    by (simp_all add: storeInv_iff)
  have card: "\<exists>f. find_file i (imageFilesState w) = Some f \<and> status f = Done"
    if "cardButtonsEnabled (view w) i"
  proof -
    from that obtain f where f: "f \<in> set (imageFilesState w)" "fileId f = i" "status f = Done"
      unfolding vw cardButtonsEnabled_renderPage by blast
    have "find_file i (imageFilesState w) = Some f"
      using find_file_distinct [OF d f(1)] f(2) by simp
    with f(3) show ?thesis by blast
  qed
  {
    assume "enabled w (Apply i n u)"
    then show "\<exists>f. find_file i (imageFilesState w) = Some f \<and> status f = Done"
      by (simp add: card)
  }
  {
    assume "enabled w (Reset i)"
    then show "\<exists>f. find_file i (imageFilesState w) = Some f \<and> status f = Done"
      by (simp add: card)
  }
  {
    assume "enabled w (ApplyToAll n u)"
    then have "\<not> anyCompressing (imageFilesState w)"
      unfolding enabled.simps vw by simp
    then show "\<forall>f \<in> set (imageFilesState w). status f \<noteq> Compressing"
      by (simp add: anyCompressing_def list_ex_iff)
  }
next
  assume ex: "execIdle es initialWorld = Some w"
  have "runsInv w"
    by (rule execIdle_runsInv [OF ex storeInv_initial runsInv_initial])
  then show "distinct (map run_id (pending w))"
    and "\<forall>f \<in> set (imageFilesState w).
         fileId f \<in> set (map run_id (pending w)) \<longrightarrow> status f = Compressing"
    unfolding runsInv_iff by blast+
qed

lemma exec_steps: "exec es w = Some w' \<Longrightarrow> w' = steps es w"
  by (induction es arbitrary: w) (simp_all split: if_splits)

lemma exec_busy:
  "exec [Submit [10, 11], Complete 0 (Some 20)] initialWorld =
     Some (steps [Submit [10, 11], Complete 0 (Some 20)] initialWorld)"
  by code_simp

lemma execIdle_busy:
  "execIdle [Submit [10, 11], Complete 0 (Some 20)] initialWorld =
     Some (steps [Submit [10, 11], Complete 0 (Some 20)] initialWorld)"
  by code_simp

lemma busy_facts:
  "enabled (steps [Submit [10, 11], Complete 0 (Some 20)] initialWorld) (Apply 0 (Fin 300) KB)"
  "map run_id (pending (steps [Submit [10, 11], Complete 0 (Some 20)] initialWorld)) = [1]"
  "map status (imageFilesState (steps [Submit [10, 11], Complete 0 (Some 20)] initialWorld)) =
     [Done, Compressing]"
  by code_simp+

theorem rerun_disabled_witness:
  "exec [Submit [10, 11], Complete 0 (Some 20)] initialWorld =
     Some (steps [Submit [10, 11], Complete 0 (Some 20)] initialWorld) \<and>
   execIdle [Submit [10, 11], Complete 0 (Some 20)] initialWorld =
     Some (steps [Submit [10, 11], Complete 0 (Some 20)] initialWorld) \<and>
   enabled (steps [Submit [10, 11], Complete 0 (Some 20)] initialWorld) (Apply 0 (Fin 300) KB) \<and>
   (\<exists>f. find_file 0 (imageFilesState
          (steps [Submit [10, 11], Complete 0 (Some 20)] initialWorld)) = Some f \<and>
        status f = Done) \<and>
   map status (imageFilesState (steps [Submit [10, 11], Complete 0 (Some 20)] initialWorld)) =
     [Done, Compressing] \<and>
   map run_id (pending (steps [Submit [10, 11], Complete 0 (Some 20)] initialWorld)) = [1] \<and>
   distinct (map run_id (pending (steps [Submit [10, 11], Complete 0 (Some 20)] initialWorld)))"
proof -
  note t = rerun_disabled_while_running [of "[Submit [10, 11], Complete 0 (Some 20)]"
      "steps [Submit [10, 11], Complete 0 (Some 20)] initialWorld" 0 "Fin 300" KB]
  from t exec_busy busy_facts(1)
  have a: "\<exists>f. find_file 0 (imageFilesState
          (steps [Submit [10, 11], Complete 0 (Some 20)] initialWorld)) = Some f \<and>
        status f = Done"
    by blast
  from t execIdle_busy
  have b: "distinct (map run_id (pending (steps [Submit [10, 11], Complete 0 (Some 20)] initialWorld)))"
    by blast
  from exec_busy execIdle_busy busy_facts a b show ?thesis by blast
qed

text \<open>
  Claim C6 fails on the code. Two files are added and the second finishes; the first is
  removed while its compression is outstanding; the page is cleared, which sets \<open>nextId\<close>
  back to \<open>0\<close>; a third file (\<open>12\<close>) is added and gets the id \<open>0\<close> again, so that two
  runs for the id \<open>0\<close> are outstanding, one for the removed file \<open>10\<close> and one for the
  file \<open>12\<close>. When the run of the removed file succeeds, its result is stored in the new
  job, which is shown as done while its own run is outstanding. Its \<open>Apply\<close> button is
  enabled, and clicking it starts a second run for the same job and file: two runs for
  the id \<open>0\<close> and the file \<open>12\<close> are outstanding.
\<close>

theorem rerun_while_outstanding:
  "map_option outstanding (exec [Submit [10, 11], Complete 1 (Some 21), Remove 0, ClearAll,
       Submit [12]] initialWorld) = Some [(0, 10), (0, 12)] \<and>
   map_option (\<lambda>w. (obs w, outstanding w))
     (exec [Submit [10, 11], Complete 1 (Some 21), Remove 0, ClearAll, Submit [12],
       Complete 0 (Some 20)] initialWorld) =
     Some (([(0, Done, 3, Some 4)], [0, 1, 2, 3, 4], [0, 1, 2], [0]), [(0, 12)]) \<and>
   map_option outstanding
     (exec [Submit [10, 11], Complete 1 (Some 21), Remove 0, ClearAll, Submit [12],
       Complete 0 (Some 20), Apply 0 (Fin 300) KB] initialWorld) =
     Some [(0, 12), (0, 12)]"
  by code_simp

section \<open>The list in every state the page reaches\<close>

lemma steps_storeInv: "storeInv w \<Longrightarrow> storeInv (steps es w)"
  by (induction es arbitrary: w) (simp_all add: storeInv_step)

lemma steps_doneWorld: "steps [Submit [10], Complete 0 (Some 20)] initialWorld = doneWorld"
  by code_simp

text \<open>
  In every state reached from the initial page by any sequence of handler calls and
  settlements, the jobs of the list have pairwise distinct ids below \<open>nextId\<close>, every job
  that is done has a compressed file, and the page shown is the one rendered from the
  current list.
\<close>

theorem reachable_store_invariant:
  "distinct (map fileId (imageFilesState (steps es initialWorld))) \<and>
   (\<forall>f \<in> set (imageFilesState (steps es initialWorld)).
      fileId f < nextId (steps es initialWorld) \<and>
      (status f = Done \<longrightarrow> compressedFile f \<noteq> None)) \<and>
   view (steps es initialWorld) =
     renderPage (imageFilesState (steps es initialWorld)) initialPage"
  using steps_storeInv [OF storeInv_initial, of es]
  unfolding storeInv_iff by blast

theorem reachable_store_invariant_witness:
  "steps [Submit [10], Complete 0 (Some 20)] initialWorld = doneWorld \<and>
   distinct (map fileId (imageFilesState doneWorld)) \<and>
   view doneWorld = renderPage (imageFilesState doneWorld) initialPage"
  using reachable_store_invariant [of "[Submit [10], Complete 0 (Some 20)]"]
  unfolding steps_doneWorld by blast

section \<open>The toolbar in every state the page reaches\<close>

text \<open>
  Claim C9. In every state of the list that the page reaches, by any sequence of handler
  calls and settlements from the initial page, what \<open>updateGlobalUI\<close> recomputes from the
  list is this: the count is the number of jobs that are done, \<open>anyCompressing\<close> holds
  iff some job is compressing, the export button is enabled iff the count is positive and
  no job is compressing, and the buttons for applying to all and for clearing are enabled
  iff no job is compressing. (\<open>handleDownloadAll\<close> reads the list and does not write it;
  what it writes to the export button itself is not a recomputation from the list.)
\<close>

theorem render_aggregates:
  "readyToDownloadCount (imageFilesState (steps es initialWorld)) =
     length (filter (\<lambda>f. status f = Done) (imageFilesState (steps es initialWorld))) \<and>
   (anyCompressing (imageFilesState (steps es initialWorld)) \<longleftrightarrow>
      (\<exists>f \<in> set (imageFilesState (steps es initialWorld)). status f = Compressing)) \<and>
   (\<not> downloadAllDisabled (view (render (steps es initialWorld))) \<longleftrightarrow>
      0 < readyToDownloadCount (imageFilesState (steps es initialWorld)) \<and>
      \<not> anyCompressing (imageFilesState (steps es initialWorld))) \<and>
   (\<not> applyToAllDisabled (view (render (steps es initialWorld))) \<longleftrightarrow>
      \<not> anyCompressing (imageFilesState (steps es initialWorld))) \<and>
   (\<not> clearAllDisabled (view (render (steps es initialWorld))) \<longleftrightarrow>
      \<not> anyCompressing (imageFilesState (steps es initialWorld)))"
proof -
  define w where "w = steps es initialWorld"
  have "storeInv w"
    unfolding w_def by (rule steps_storeInv [OF storeInv_initial])
  then have h: "\<forall>f \<in> set (imageFilesState w). status f = Done \<longrightarrow> compressedFile f \<noteq> None"
    by (simp add: storeInv_iff)
  from updateGlobalUI_facts [of w] h show ?thesis
    unfolding w_def [symmetric] by blast
qed

theorem render_aggregates_witness:
  "steps [Submit [10], Complete 0 (Some 20)] initialWorld = doneWorld \<and>
   readyToDownloadCount (imageFilesState doneWorld) = 1 \<and>
   length (filter (\<lambda>f. status f = Done) (imageFilesState doneWorld)) = 1 \<and>
   \<not> anyCompressing (imageFilesState doneWorld) \<and>
   \<not> downloadAllDisabled (view (render doneWorld)) \<and>
   \<not> applyToAllDisabled (view (render doneWorld)) \<and>
   \<not> clearAllDisabled (view (render doneWorld))"
proof -
  note t = render_aggregates [of "[Submit [10], Complete 0 (Some 20)]", unfolded steps_doneWorld]
  have n: "length (filter (\<lambda>f. status f = Done) (imageFilesState doneWorld)) = 1"
    "\<not> anyCompressing (imageFilesState doneWorld)"
    by (simp_all add: doneWorld_def doneJob_def anyCompressing_def)
  from t have c: "readyToDownloadCount (imageFilesState doneWorld) =
      length (filter (\<lambda>f. status f = Done) (imageFilesState doneWorld))"
    by blast
  from t c n have e: "\<not> downloadAllDisabled (view (render doneWorld))"
    "\<not> applyToAllDisabled (view (render doneWorld))"
    "\<not> clearAllDisabled (view (render doneWorld))"
    by simp_all
  from steps_doneWorld c n e show ?thesis by simp
qed

end
